theory Spec2Isabelle
  imports Main "HOL-Library.Finite_Map" "HOL-Library.Multiset"
    "HOL-Library.Char_ord" "HOL-Library.List_Lexorder" "HOL-Library.Word"
begin

unbundle bit_operations_syntax

section \<open>Data model of \<^verbatim>\<open>consensus_processor.py\<close>\<close>

text \<open>
  The module is Python 2. Its dictionaries are finite maps (\<open>fmap\<close>), its sets of
  character positions are finite sets of integers, and a \<^verbatim>\<open>Counter\<close> is a multiset.
  An annotation is a dictionary with a fixed set of keys, hence a record; the numeric
  fields are the values that \<^verbatim>\<open>int(...)\<close> yields. The \<^verbatim>\<open>unicode-escape\<close>
  codec belongs to the Python library and not to the module, so the decoder and the encoder
  are parameters \<open>dec\<close> and \<open>enc\<close> of the functions that call them. A decoded character is
  a code point.
\<close>

type_synonym uchar = nat

record anno =
  start_pos :: int
  end_pos :: int
  target_text :: string
  article_sha256 :: string
  article_filename :: string
  contributor_uuid :: string
  topic_name :: string
  namespace :: string
  case_number :: int
  taskrun_count :: int

text \<open>
  A failed \<^verbatim>\<open>assert\<close> raises \<^verbatim>\<open>AssertionError\<close>, a missing dictionary key
  \<^verbatim>\<open>KeyError\<close>. The methods mutate their object in place, so a method that raises leaves
  the object in the state it had reached: \<open>Raises e s\<close> carries that state.
\<close>

datatype error = AssertionError | KeyError

datatype 's outcome = Returns 's | Raises error 's

text \<open>\<^verbatim>\<open>range(a, b)\<close> is the list \<open>a, a + 1, ..., b - 1\<close>, empty when \<open>b \<le> a\<close>.\<close>

definition py_range :: "int \<Rightarrow> int \<Rightarrow> int list" where
  "py_range a b = [a..b - 1]"

text \<open>\<^verbatim>\<open>dict(pairs)\<close>: a later pair replaces an earlier one with the same key.\<close>

definition py_dict :: "('k \<times> 'v) list \<Rightarrow> ('k, 'v) fmap" where
  "py_dict kvs = fmap_of_list (rev kvs)"

subsection \<open>\<^verbatim>\<open>ArticleData\<close>\<close>

record ArticleData =
  article_sha256 :: "string option"
  article_filename :: "string option"
  char_dict :: "(int, uchar) fmap"

definition ArticleData_init :: ArticleData where
  "ArticleData_init =
     \<lparr>ArticleData.article_sha256 = None, ArticleData.article_filename = None,
      char_dict = fmempty\<rparr>"

text \<open>
  The dictionary \<^verbatim>\<open>anno_map\<close> that the first three lines of \<^verbatim>\<open>ArticleData.consider\<close>
  build: \<^verbatim>\<open>zip\<close> stops at the shorter of the range and the decoded text.
\<close>

definition anno_map_of :: "(string \<Rightarrow> uchar list) \<Rightarrow> anno \<Rightarrow> (int, uchar) fmap" where
  "anno_map_of dec a =
     (let anno_range = py_range (anno.start_pos a) (anno.end_pos a);
          target_text = dec (anno.target_text a)
      in py_dict (zip anno_range target_text))"

definition ArticleData_consider ::
  "(string \<Rightarrow> uchar list) \<Rightarrow> ArticleData \<Rightarrow> anno \<Rightarrow> ArticleData outcome" where
  "ArticleData_consider dec self a =
     (let anno_map = anno_map_of dec a;
          intersection = fmdom (char_dict self) |\<inter>| fmdom anno_map
      in if \<not> fBall intersection (\<lambda>k. fmlookup (char_dict self) k = fmlookup anno_map k)
         then Raises AssertionError self
         else
           let self = self\<lparr>char_dict := char_dict self ++\<^sub>f anno_map\<rparr>
           in (case ArticleData.article_sha256 self of
                 None \<Rightarrow>
                   Returns (self\<lparr>ArticleData.article_sha256 := Some (anno.article_sha256 a),
                                 ArticleData.article_filename := Some (anno.article_filename a)\<rparr>)
               | Some h \<Rightarrow>
                   if h \<noteq> anno.article_sha256 a then Raises AssertionError self
                   else if ArticleData.article_filename self \<noteq> Some (anno.article_filename a)
                     then Raises AssertionError self
                   else Returns self))"

definition ArticleData_get :: "ArticleData \<Rightarrow> int \<Rightarrow> error + uchar" where
  "ArticleData_get self char_index =
     (case fmlookup (char_dict self) char_index of
        None \<Rightarrow> Inl KeyError
      | Some c \<Rightarrow> Inr c)"

subsection \<open>\<^verbatim>\<open>ContribData\<close>\<close>

record ContribData =
  flattened :: "int fset"
  case_number_dict :: "(int, int) fmap"

definition ContribData_init :: ContribData where
  "ContribData_init = \<lparr>flattened = {||}, case_number_dict = fmempty\<rparr>"

text \<open>
  \<^verbatim>\<open>dict.fromkeys(keys, v)\<close> and the dictionary comprehension
  \<^verbatim>\<open>{k: f(k) for k in keys}\<close>, both over a set of keys.
\<close>

definition dict_fromkeys :: "int fset \<Rightarrow> 'v \<Rightarrow> (int, 'v) fmap" where
  "dict_fromkeys keys v = py_dict (map (\<lambda>k. (k, v)) (sorted_list_of_fset keys))"

definition dict_comprehension :: "(int \<Rightarrow> 'v) \<Rightarrow> int fset \<Rightarrow> (int, 'v) fmap" where
  "dict_comprehension f keys = py_dict (map (\<lambda>k. (k, f k)) (sorted_list_of_fset keys))"

text \<open>
  In the comprehension of \<^verbatim>\<open>ContribData.consider\<close> the subscript
  \<^verbatim>\<open>self.case_number_dict[k]\<close> is only evaluated at keys of that dictionary, so it cannot
  raise.
\<close>

definition ContribData_consider :: "ContribData \<Rightarrow> anno \<Rightarrow> ContribData" where
  "ContribData_consider self a =
     (let anno_set = fset_of_list (py_range (anno.start_pos a) (anno.end_pos a));
          self = self\<lparr>flattened := flattened self |\<union>| anno_set\<rparr>;
          case_number_keys = fmdom (case_number_dict self);
          new_keys = anno_set |-| case_number_keys;
          overlapped_keys = case_number_keys |\<inter>| anno_set;
          proposed = anno.case_number a;
          new_dict = dict_fromkeys new_keys proposed;
          overlapped_dict =
            dict_comprehension (\<lambda>k. min (the (fmlookup (case_number_dict self) k)) proposed)
              overlapped_keys;
          self = self\<lparr>case_number_dict := case_number_dict self ++\<^sub>f new_dict\<rparr>;
          self = self\<lparr>case_number_dict := case_number_dict self ++\<^sub>f overlapped_dict\<rparr>
      in self)"

subsection \<open>\<^verbatim>\<open>TopicData\<close>\<close>

record TopicData =
  topic_name :: string
  namespace :: string
  contrib_dict :: "(string, ContribData) fmap"

definition TopicData_init :: TopicData where
  "TopicData_init =
     \<lparr>TopicData.topic_name = [], TopicData.namespace = [], contrib_dict = fmempty\<rparr>"

text \<open>
  Subscripting a \<^verbatim>\<open>defaultdict\<close> at a missing key yields a fresh default value, which the
  caller's update then stores under that key.
\<close>

definition defaultdict_get :: "'v \<Rightarrow> ('k, 'v) fmap \<Rightarrow> 'k \<Rightarrow> 'v" where
  "defaultdict_get dflt d k = (case fmlookup d k of None \<Rightarrow> dflt | Some v \<Rightarrow> v)"

definition TopicData_consider :: "TopicData \<Rightarrow> anno \<Rightarrow> TopicData outcome" where
  "TopicData_consider self a =
     (let contrib_uuid = contributor_uuid a;
          contrib_data = defaultdict_get ContribData_init (contrib_dict self) contrib_uuid;
          contrib_data = ContribData_consider contrib_data a;
          self = self\<lparr>contrib_dict := fmupd contrib_uuid contrib_data (contrib_dict self)\<rparr>
      in if TopicData.topic_name self = []
         then Returns (self\<lparr>TopicData.topic_name := anno.topic_name a,
                             TopicData.namespace := anno.namespace a\<rparr>)
         else if TopicData.topic_name self \<noteq> anno.topic_name a then Raises AssertionError self
         else if TopicData.namespace self \<noteq> anno.namespace a then Raises AssertionError self
         else Returns self)"

text \<open>
  Python 2 iterates a dictionary in the order of the slots of its hash table. Two of the
  module's loops over a dictionary cannot show that order: \<^verbatim>\<open>sum_contribs\<close> adds up
  counters, and the keys that \<^verbatim>\<open>TopicData.get_consensus\<close> takes from a dictionary are
  sorted by \<^verbatim>\<open>convert_to_ranges\<close> (lemmas \<open>count_sum_contribs\<close> and
  \<open>convert_to_ranges_set\<close>). For these two the model enumerates by ascending key. The third
  loop, over \<^verbatim>\<open>self.topics\<close> in \<^verbatim>\<open>ConsensusProcessor.get_consensus\<close>, appends rows
  in the order of the iteration; it is modelled with the processor below. A
  \<^verbatim>\<open>Counter\<close> over a set counts every member once, and \<^verbatim>\<open>+\<close> on counters of positive
  counts is multiset union.
\<close>

definition iteritems :: "('k::linorder, 'v) fmap \<Rightarrow> ('k \<times> 'v) list" where
  "iteritems d = sorted_list_of_fmap d"

definition dict_keys :: "('k::linorder, 'v) fmap \<Rightarrow> 'k list" where
  "dict_keys d = map fst (iteritems d)"

definition Counter :: "int fset \<Rightarrow> int multiset" where
  "Counter s = mset_set (fset s)"

definition Counter_iteritems :: "int multiset \<Rightarrow> (int \<times> nat) list" where
  "Counter_iteritems c = map (\<lambda>k. (k, count c k)) (sorted_list_of_set (set_mset c))"

definition sum_contribs :: "TopicData \<Rightarrow> int multiset" where
  "sum_contribs self =
     fold (\<lambda>(contrib_uuid, contrib_data) topic_counter.
             topic_counter + Counter (flattened contrib_data))
       (iteritems (contrib_dict self)) {#}"

record offset =
  start_pos :: int
  end_pos :: int

text \<open>
  One pass of the loop of \<^verbatim>\<open>convert_to_ranges\<close>, on the pair \<open>(i, pos)\<close> of
  \<^verbatim>\<open>enumerate(indices)\<close> and the loop state \<open>(offsets, start, end)\<close>. The subscript
  \<^verbatim>\<open>indices[i-1]\<close> is evaluated only when \<open>0 < i\<close>, where \<open>i - 1\<close> is in range.
\<close>

definition convert_step ::
  "int list \<Rightarrow> nat \<times> int \<Rightarrow> offset list \<times> int \<times> int \<Rightarrow> offset list \<times> int \<times> int" where
  "convert_step indices = (\<lambda>(i, pos) (offsets, start, end).
     let (offsets, start) =
           (if 0 < i \<and> indices ! (i - 1) + 1 \<noteq> pos
            then (offsets @ [\<lparr>offset.start_pos = start, offset.end_pos = end\<rparr>], pos)
            else (offsets, start))
     in (offsets, start, pos + 1))"

definition convert_to_ranges :: "int list \<Rightarrow> offset list" where
  "convert_to_ranges positions =
     (if length positions \<noteq> 0 then
        let indices = sort positions;
            start = indices ! 0;
            end = start + 1;
            (offsets, start, end) =
               fold (convert_step indices) (enumerate 0 indices) ([], start, end)
        in offsets @ [\<lparr>offset.start_pos = start, offset.end_pos = end\<rparr>]
      else [])"

record text_offset = offset +
  target_text :: string

record case_row = text_offset +
  topic_name :: string
  namespace :: string
  case_number :: int

definition determine_cases :: "TopicData \<Rightarrow> text_offset list \<Rightarrow> case_row list" where
  "determine_cases self offsets =
     map (\<lambda>(seq, offset).
            \<lparr>offset.start_pos = offset.start_pos offset, offset.end_pos = offset.end_pos offset,
             text_offset.target_text = text_offset.target_text offset,
             case_row.topic_name = TopicData.topic_name self,
             case_row.namespace = TopicData.namespace self,
             case_row.case_number = int seq + 1\<rparr>)
       (enumerate 0 offsets)"

text \<open>
  \<^verbatim>\<open>TopicData.get_consensus\<close>; its first three lines, which compute the list
  \<^verbatim>\<open>passing_indices\<close>, are a function of their own, so that the properties can speak of it.
\<close>

definition passing_indices :: "TopicData \<Rightarrow> (int \<times> nat \<Rightarrow> bool) \<Rightarrow> int list" where
  "passing_indices self determine_passing =
     (let topic_counter = sum_contribs self;
          passing_tuples = filter determine_passing (Counter_iteritems topic_counter)
      in dict_keys (py_dict passing_tuples))"

definition TopicData_get_consensus :: "TopicData \<Rightarrow> (int \<times> nat \<Rightarrow> bool) \<Rightarrow> offset list" where
  "TopicData_get_consensus self determine_passing =
     (let offsets = convert_to_ranges (passing_indices self determine_passing)
      in offsets)"

definition get_contrib_count :: "TopicData \<Rightarrow> int" where
  "get_contrib_count self = int (fcard (fmdom (contrib_dict self)))"

subsection \<open>\<^verbatim>\<open>ConsensusProcessor\<close>\<close>

definition MIN_REDUNDANCY :: int where
  "MIN_REDUNDANCY = 3"

definition PASS_THRESHOLD :: int where
  "PASS_THRESHOLD = 2"

text \<open>\<^verbatim>\<open>d.get(key, default)\<close>\<close>

definition dict_get :: "('k, 'v) fmap \<Rightarrow> 'k \<Rightarrow> 'v \<Rightarrow> 'v" where
  "dict_get d k dflt = (case fmlookup d k of None \<Rightarrow> dflt | Some v \<Rightarrow> v)"

text \<open>
  The order in which a Python 2 dictionary is iterated depends on its keys and on the order
  in which they were inserted, because a key that finds its slot taken moves on to another
  one. The dictionary \<^verbatim>\<open>self.topics\<close> is therefore two fields: \<open>topics\<close>, the value
  under every key, and \<open>topics_keys\<close>, the keys in the order of their insertion. No key is
  ever deleted.
\<close>

record ConsensusProcessor =
  task_uuid :: string
  iaa_config :: "(string, int) fmap"
  article_data :: ArticleData
  topics :: "(string, TopicData) fmap"
  topics_keys :: "string list"

definition ConsensusProcessor_init :: "string \<Rightarrow> (string, int) fmap \<Rightarrow> ConsensusProcessor" where
  "ConsensusProcessor_init uuid config =
     \<lparr>task_uuid = uuid, iaa_config = config, article_data = ArticleData_init,
      topics = fmempty, topics_keys = []\<rparr>"

text \<open>
  Subscripting the \<^verbatim>\<open>defaultdict\<close> inserts a key that is missing, and leaves the
  dictionary alone otherwise.
\<close>

definition insert_key :: "string \<Rightarrow> string list \<Rightarrow> string list" where
  "insert_key k ks = (if k \<in> set ks then ks else ks @ [k])"

text \<open>
  The loop of \<^verbatim>\<open>ConsensusProcessor.consider\<close>. An exception of
  \<^verbatim>\<open>ArticleData.consider\<close> or \<^verbatim>\<open>TopicData.consider\<close> ends the loop; the objects they
  had mutated stay mutated. The subscript \<^verbatim>\<open>self.topics[topic_name]\<close> comes before
  \<^verbatim>\<open>topic_data.consider\<close>, so the key is in the dictionary also when that call raises.
\<close>

fun consider_loop ::
  "(string \<Rightarrow> uchar list) \<Rightarrow> int \<Rightarrow> ConsensusProcessor \<Rightarrow> anno list \<Rightarrow>
   ConsensusProcessor outcome" where
  "consider_loop dec minimum_redundancy self [] = Returns self"
| "consider_loop dec minimum_redundancy self (a # task_highlights) =
     (if taskrun_count a < minimum_redundancy
      then consider_loop dec minimum_redundancy self task_highlights
      else
        (case ArticleData_consider dec (article_data self) a of
           Raises e ad \<Rightarrow> Raises e (self\<lparr>article_data := ad\<rparr>)
         | Returns ad \<Rightarrow>
             let self = self\<lparr>article_data := ad\<rparr>;
                 topic_name = anno.topic_name a;
                 topic_data = defaultdict_get TopicData_init (topics self) topic_name;
                 self = self\<lparr>topics_keys := insert_key topic_name (topics_keys self)\<rparr>
             in (case TopicData_consider topic_data a of
                   Raises e td \<Rightarrow> Raises e (self\<lparr>topics := fmupd topic_name td (topics self)\<rparr>)
                 | Returns td \<Rightarrow>
                     consider_loop dec minimum_redundancy
                       (self\<lparr>topics := fmupd topic_name td (topics self)\<rparr>) task_highlights)))"

definition ConsensusProcessor_consider ::
  "(string \<Rightarrow> uchar list) \<Rightarrow> ConsensusProcessor \<Rightarrow> anno list \<Rightarrow> ConsensusProcessor outcome" where
  "ConsensusProcessor_consider dec self task_highlights =
     (let minimum_redundancy = dict_get (iaa_config self) ''minimum_redundancy'' MIN_REDUNDANCY
      in consider_loop dec minimum_redundancy self task_highlights)"

text \<open>
  The list comprehension of \<^verbatim>\<open>set_text\<close> reads the positions in ascending order and
  raises at the first one that is missing.
\<close>

fun get_chars :: "ArticleData \<Rightarrow> int list \<Rightarrow> error + uchar list" where
  "get_chars ad [] = Inr []"
| "get_chars ad (x # xs) =
     (case ArticleData_get ad x of
        Inl e \<Rightarrow> Inl e
      | Inr c \<Rightarrow> (case get_chars ad xs of Inl e \<Rightarrow> Inl e | Inr cs \<Rightarrow> Inr (c # cs)))"

fun set_text ::
  "(uchar list \<Rightarrow> string) \<Rightarrow> ConsensusProcessor \<Rightarrow> offset list \<Rightarrow> error + text_offset list" where
  "set_text enc self [] = Inr []"
| "set_text enc self (offset # offsets) =
     (let start = offset.start_pos offset;
          end = offset.end_pos offset
      in case get_chars (article_data self) (py_range start end) of
           Inl e \<Rightarrow> Inl e
         | Inr chars \<Rightarrow>
             (case set_text enc self offsets of
                Inl e \<Rightarrow> Inl e
              | Inr rest \<Rightarrow>
                  Inr (\<lparr>offset.start_pos = start, offset.end_pos = end,
                        text_offset.target_text = enc chars\<rparr> # rest)))"

record row = case_row +
  article_sha256 :: "string option"
  article_filename :: "string option"
  task_uuid :: string

definition set_links :: "ConsensusProcessor \<Rightarrow> case_row list \<Rightarrow> row list" where
  "set_links self rows =
     map (\<lambda>r. \<lparr>offset.start_pos = offset.start_pos r, offset.end_pos = offset.end_pos r,
               text_offset.target_text = text_offset.target_text r,
               case_row.topic_name = case_row.topic_name r,
               case_row.namespace = case_row.namespace r,
               case_row.case_number = case_row.case_number r,
               row.article_sha256 = ArticleData.article_sha256 (article_data self),
               row.article_filename = ArticleData.article_filename (article_data self),
               row.task_uuid = ConsensusProcessor.task_uuid self\<rparr>) rows"

definition determine_passing :: "int \<Rightarrow> int \<times> nat \<Rightarrow> bool" where
  "determine_passing pass_threshold = (\<lambda>(index, total). int total \<ge> pass_threshold)"

fun get_consensus_loop ::
  "(uchar list \<Rightarrow> string) \<Rightarrow> ConsensusProcessor \<Rightarrow> (string \<times> TopicData) list \<Rightarrow> row list \<Rightarrow>
   error + row list" where
  "get_consensus_loop enc self [] consensus_rows = Inr consensus_rows"
| "get_consensus_loop enc self ((name, topic_data) # items) consensus_rows =
     (let pass_threshold = dict_get (iaa_config self) ''pass_threshold'' PASS_THRESHOLD;
          offsets = TopicData_get_consensus topic_data (determine_passing pass_threshold)
      in case set_text enc self offsets of
           Inl e \<Rightarrow> Inl e
         | Inr offsets \<Rightarrow>
             let rows = determine_cases topic_data offsets;
                 rows = set_links self rows
             in get_consensus_loop enc self items (consensus_rows @ rows))"

text \<open>
  \<^verbatim>\<open>self.topics.iteritems()\<close>. The order of the slots belongs to the interpreter and not
  to the module: the parameter \<open>slot_order\<close> takes the keys in the order of their insertion
  to the keys in the order of the iteration. \<open>py2_slot_order\<close> below is that of CPython 2.7.
\<close>

definition topics_iteritems ::
  "(string list \<Rightarrow> string list) \<Rightarrow> ConsensusProcessor \<Rightarrow> (string \<times> TopicData) list" where
  "topics_iteritems slot_order self =
     List.map_filter (\<lambda>k. map_option (Pair k) (fmlookup (topics self) k))
       (slot_order (topics_keys self))"

definition get_consensus ::
  "(string list \<Rightarrow> string list) \<Rightarrow> (uchar list \<Rightarrow> string) \<Rightarrow> ConsensusProcessor \<Rightarrow>
   error + row list" where
  "get_consensus slot_order enc self =
     get_consensus_loop enc self (topics_iteritems slot_order self) []"

record answer_row = row +
  extra_contrib_count :: int

fun get_answer_consensus_loop ::
  "(uchar list \<Rightarrow> string) \<Rightarrow> ConsensusProcessor \<Rightarrow> (string \<times> TopicData) list \<Rightarrow>
   answer_row list \<Rightarrow> error + answer_row list" where
  "get_answer_consensus_loop enc self [] consensus_rows = Inr consensus_rows"
| "get_answer_consensus_loop enc self ((name, topic_data) # items) consensus_rows =
     (let pass_threshold = dict_get (iaa_config self) ''pass_threshold'' PASS_THRESHOLD;
          offsets = TopicData_get_consensus topic_data (determine_passing pass_threshold);
          contrib_count = get_contrib_count topic_data;
          offsets = (if length offsets = 0 \<and> contrib_count \<ge> pass_threshold
                     then [\<lparr>offset.start_pos = 0, offset.end_pos = 0\<rparr>] else offsets)
      in case set_text enc self offsets of
           Inl e \<Rightarrow> Inl e
         | Inr offsets \<Rightarrow>
             let rows = determine_cases topic_data offsets;
                 rows = set_links self rows;
                 rows = map (\<lambda>r. row.extend r
                                  (answer_row.fields contrib_count)) rows
             in get_answer_consensus_loop enc self items (consensus_rows @ rows))"

definition get_answer_consensus ::
  "(string list \<Rightarrow> string list) \<Rightarrow> (uchar list \<Rightarrow> string) \<Rightarrow> ConsensusProcessor \<Rightarrow>
   error + answer_row list" where
  "get_answer_consensus slot_order enc self =
     get_answer_consensus_loop enc self (topics_iteritems slot_order self) []"

subsection \<open>The dictionary of CPython 2.7\<close>

text \<open>
  The dictionary of CPython 2.7 (\<^verbatim>\<open>Objects/dictobject.c\<close>) with keys of type \<^verbatim>\<open>str\<close>,
  on a platform whose \<^verbatim>\<open>long\<close> has 64 bits and without hash randomisation, which is
  off unless asked for. The hash of a string (\<^verbatim>\<open>string_hash\<close> in
  \<^verbatim>\<open>Objects/stringobject.c\<close>) starts from the first byte shifted left by 7, multiplies
  by 1000003 and adds in every byte with exclusive or, and at last the length; the result -1
  is replaced by -2, and the empty string has hash 0. The arithmetic wraps around.
\<close>

definition string_hash :: "string \<Rightarrow> 64 word" where
  "string_hash s =
     (case s of
        [] \<Rightarrow> 0
      | c # cs \<Rightarrow>
          let x = push_bit 7 (of_nat (of_char c));
              x = fold (\<lambda>c x. (1000003 * x) XOR of_nat (of_char c)) s x;
              x = x XOR of_nat (length s)
          in if x = - 1 then - 2 else x)"

text \<open>
  The table is a list of slots, each empty or holding a key; its length is a power of two.
  Only the keys matter here. The search for the slot of a new key starts at the hash modulo
  the table size and goes from \<open>i\<close> to \<open>5 * i + perturb + 1\<close>, where \<open>perturb\<close> starts as the
  hash and is shifted right by 5 after every step. The loop of the interpreter has no bound;
  it ends because the table always has an empty slot and because, once \<open>perturb\<close> is 0 (after
  13 steps), the sequence runs through all slots. The model stops after 13 steps more than
  the table has slots and yields \<open>None\<close> then.
\<close>

type_synonym slots = "string option list"

fun find_slot :: "nat \<Rightarrow> slots \<Rightarrow> 64 word \<Rightarrow> 64 word \<Rightarrow> nat option" where
  "find_slot 0 table i perturb = None"
| "find_slot (Suc fuel) table i perturb =
     (let mask = of_nat (length table) - 1;
          ep = unat (i AND mask)
      in if table ! ep = None then Some ep
         else find_slot fuel table (push_bit 2 i + i + perturb + 1) (drop_bit 5 perturb))"

text \<open>\<^verbatim>\<open>insertdict_clean\<close>: a key that is not in the table goes to the slot found.\<close>

definition insertdict_clean :: "string \<Rightarrow> slots option \<Rightarrow> slots option" where
  "insertdict_clean key table_opt =
     (case table_opt of
        None \<Rightarrow> None
      | Some table \<Rightarrow>
          let hash = string_hash key;
              mask = of_nat (length table) - 1
          in map_option (\<lambda>ep. table[ep := Some key])
               (find_slot (length table + 13) table (hash AND mask) hash))"

text \<open>The keys of a table in the order of its slots, which is the order of an iteration.\<close>

definition slot_keys :: "slots \<Rightarrow> string list" where
  "slot_keys table = List.map_filter id table"

text \<open>
  \<^verbatim>\<open>dictresize\<close>: the new size is the first power of two from 8 on that exceeds
  \<open>minused\<close>; the keys move to the new table in the order of the old slots.
\<close>

fun new_size :: "nat \<Rightarrow> nat \<Rightarrow> nat \<Rightarrow> nat" where
  "new_size 0 newsize minused = newsize"
| "new_size (Suc fuel) newsize minused =
     (if newsize \<le> minused then new_size fuel (2 * newsize) minused else newsize)"

definition dictresize :: "slots \<Rightarrow> nat \<Rightarrow> slots option" where
  "dictresize table minused =
     (let newsize = new_size 64 8 minused
      in fold insertdict_clean (slot_keys table) (Some (replicate newsize None)))"

text \<open>
  \<^verbatim>\<open>PyDict_SetItem\<close>: a key that is in the table keeps its slot; after the insertion of a
  new key the table is resized when two thirds of its slots are in use.
\<close>

definition dict_setitem :: "string \<Rightarrow> slots option \<Rightarrow> slots option" where
  "dict_setitem key table_opt =
     (case table_opt of
        None \<Rightarrow> None
      | Some table \<Rightarrow>
          if Some key \<in> set table then Some table
          else
            (case insertdict_clean key (Some table) of
               None \<Rightarrow> None
             | Some table \<Rightarrow>
                 let used = length (slot_keys table)
                 in if used * 3 \<ge> length table * 2
                    then dictresize table ((if used > 50000 then 2 else 4) * used)
                    else Some table))"

text \<open>
  The iteration order of a dictionary that was empty, with 8 slots, and then received the
  given keys one after the other. Where the bound of the search was reached, the list is
  empty.
\<close>

definition py2_slot_order :: "string list \<Rightarrow> string list" where
  "py2_slot_order keys =
     (case fold dict_setitem keys (Some (replicate 8 None)) of
        None \<Rightarrow> []
      | Some table \<Rightarrow> slot_keys table)"

section \<open>Vocabulary of the properties\<close>

text \<open>
  The two integrity conditions of \<^verbatim>\<open>ArticleData.consider\<close>, in terms of the decoded
  text: position \<open>start_pos + i\<close> receives the \<open>i\<close>-th decoded character, for every \<open>i\<close>
  below both the length of the text and the length of the range.
\<close>

abbreviation char_mismatch :: "(string \<Rightarrow> uchar list) \<Rightarrow> ArticleData \<Rightarrow> anno \<Rightarrow> bool" where
  "char_mismatch dec self a \<equiv>
     \<exists>i < length (dec (anno.target_text a)).
        anno.start_pos a + int i < anno.end_pos a
        \<and> (\<exists>c. fmlookup (char_dict self) (anno.start_pos a + int i) = Some c
               \<and> c \<noteq> dec (anno.target_text a) ! i)"

abbreviation identity_mismatch :: "ArticleData \<Rightarrow> anno \<Rightarrow> bool" where
  "identity_mismatch self a \<equiv>
     \<exists>h. ArticleData.article_sha256 self = Some h
        \<and> (h \<noteq> anno.article_sha256 a
             \<or> ArticleData.article_filename self \<noteq> Some (anno.article_filename a))"

text \<open>
  A range covers the positions from its \<^verbatim>\<open>start_pos\<close> up to, and without, its
  \<^verbatim>\<open>end_pos\<close>.
\<close>

abbreviation covers :: "'a offset_scheme \<Rightarrow> int \<Rightarrow> bool" where
  "covers r p \<equiv> offset.start_pos r \<le> p \<and> p < offset.end_pos r"

text \<open>
  The loop of \<^verbatim>\<open>convert_to_ranges\<close> read as a recursion on the positions that are still
  to come, from the loop state \<open>(start, end)\<close>; lemma \<open>convert_to_ranges_runs\<close> proves that
  the loop computes it. It serves the proofs only.
\<close>

fun runs :: "int \<Rightarrow> int \<Rightarrow> int list \<Rightarrow> offset list" where
  "runs s e [] = [\<lparr>offset.start_pos = s, offset.end_pos = e\<rparr>]"
| "runs s e (p # ps) =
     (if e \<noteq> p then \<lparr>offset.start_pos = s, offset.end_pos = e\<rparr> # runs p (p + 1) ps
      else runs s (p + 1) ps)"

text \<open>
  Two annotations agree when they name the same article, give the same character to every
  position that both cover, and carry the same namespace if they carry the same topic name.
  A batch is consistent when the annotations that pass the redundancy filter agree pairwise.
\<close>

definition agree :: "(string \<Rightarrow> uchar list) \<Rightarrow> anno \<Rightarrow> anno \<Rightarrow> bool" where
  "agree dec a b \<longleftrightarrow>
     anno.article_sha256 a = anno.article_sha256 b
     \<and> anno.article_filename a = anno.article_filename b
     \<and> (\<forall>k c c'. fmlookup (anno_map_of dec a) k = Some c
                  \<and> fmlookup (anno_map_of dec b) k = Some c' \<longrightarrow> c = c')
     \<and> (anno.topic_name a = anno.topic_name b \<longrightarrow> anno.namespace a = anno.namespace b)"

text \<open>
  The state changes that \<^verbatim>\<open>ArticleData.consider\<close>, \<^verbatim>\<open>TopicData.consider\<close> and one pass
  of the loop of \<^verbatim>\<open>ConsensusProcessor.consider\<close> make when no assertion fails, and the
  condition \<open>fits\<close> on a processor and an annotation under which none fails (lemmas
  \<open>ArticleData_consider_merge\<close>, \<open>TopicData_consider_merge\<close>, \<open>consider_loop_step\<close>). \<open>merge\<close>
  is the change of the content; the pass also adds the topic name to \<open>topics_keys\<close>. They
  serve the proofs only.
\<close>

definition merge_article :: "(string \<Rightarrow> uchar list) \<Rightarrow> anno \<Rightarrow> ArticleData \<Rightarrow> ArticleData" where
  "merge_article dec a ad =
     \<lparr>ArticleData.article_sha256 =
        (case ArticleData.article_sha256 ad of
           None \<Rightarrow> Some (anno.article_sha256 a) | Some h \<Rightarrow> Some h),
      ArticleData.article_filename =
        (case ArticleData.article_sha256 ad of
           None \<Rightarrow> Some (anno.article_filename a) | Some h \<Rightarrow> ArticleData.article_filename ad),
      char_dict = char_dict ad ++\<^sub>f anno_map_of dec a\<rparr>"

definition merge_topic :: "anno \<Rightarrow> TopicData \<Rightarrow> TopicData" where
  "merge_topic a t =
     \<lparr>TopicData.topic_name =
        (if TopicData.topic_name t = [] then anno.topic_name a else TopicData.topic_name t),
      TopicData.namespace =
        (if TopicData.topic_name t = [] then anno.namespace a else TopicData.namespace t),
      contrib_dict =
        fmupd (contributor_uuid a)
          (ContribData_consider
             (defaultdict_get ContribData_init (contrib_dict t) (contributor_uuid a)) a)
          (contrib_dict t)\<rparr>"

definition merge :: "(string \<Rightarrow> uchar list) \<Rightarrow> anno \<Rightarrow> ConsensusProcessor \<Rightarrow> ConsensusProcessor" where
  "merge dec a self =
     self\<lparr>article_data := merge_article dec a (article_data self),
          topics := fmupd (anno.topic_name a)
                      (merge_topic a (defaultdict_get TopicData_init (topics self) (anno.topic_name a)))
                      (topics self)\<rparr>"

definition fits :: "(string \<Rightarrow> uchar list) \<Rightarrow> ConsensusProcessor \<Rightarrow> anno \<Rightarrow> bool" where
  "fits dec s a \<longleftrightarrow>
     (\<forall>k c c'. fmlookup (char_dict (article_data s)) k = Some c
                \<and> fmlookup (anno_map_of dec a) k = Some c' \<longrightarrow> c = c')
     \<and> (\<forall>h. ArticleData.article_sha256 (article_data s) = Some h \<longrightarrow>
               h = anno.article_sha256 a
               \<and> ArticleData.article_filename (article_data s) = Some (anno.article_filename a))
     \<and> (\<forall>t. fmlookup (topics s) (anno.topic_name a) = Some t \<longrightarrow>
               TopicData.topic_name t = []
               \<or> (TopicData.topic_name t = anno.topic_name a
                   \<and> TopicData.namespace t = anno.namespace a))"

text \<open>
  A processor records an annotation when it holds the annotation's characters, its article
  identity and, under its topic name, a topic of that name and of its namespace. It serves
  the proofs only.
\<close>

definition records :: "(string \<Rightarrow> uchar list) \<Rightarrow> ConsensusProcessor \<Rightarrow> anno \<Rightarrow> bool" where
  "records dec s a \<longleftrightarrow>
     (\<forall>k c. fmlookup (anno_map_of dec a) k = Some c \<longrightarrow>
             fmlookup (char_dict (article_data s)) k = Some c)
     \<and> ArticleData.article_sha256 (article_data s) = Some (anno.article_sha256 a)
     \<and> ArticleData.article_filename (article_data s) = Some (anno.article_filename a)
     \<and> (\<exists>t. fmlookup (topics s) (anno.topic_name a) = Some t
             \<and> TopicData.topic_name t = anno.topic_name a
             \<and> TopicData.namespace t = anno.namespace a)"

subsection \<open>Example data\<close>

text \<open>
  On printable ASCII text without a backslash the \<^verbatim>\<open>unicode-escape\<close> codec maps every
  byte to the code point of the same number, and back. The examples use such text only.
\<close>

definition ascii_dec :: "string \<Rightarrow> uchar list" where
  "ascii_dec = map of_char"

definition ascii_enc :: "uchar list \<Rightarrow> string" where
  "ascii_enc = map char_of"

definition example_anno :: "int \<Rightarrow> int \<Rightarrow> string \<Rightarrow> string \<Rightarrow> anno" where
  "example_anno s e txt u =
     \<lparr>anno.start_pos = s, anno.end_pos = e, anno.target_text = txt,
      anno.article_sha256 = ''sha'', anno.article_filename = ''file'',
      contributor_uuid = u, anno.topic_name = ''T'', anno.namespace = ''ns'',
      anno.case_number = 1, taskrun_count = 3\<rparr>"

definition example_article :: ArticleData where
  "example_article =
     \<lparr>ArticleData.article_sha256 = Some ''sha'', ArticleData.article_filename = Some ''file'',
      char_dict = fmupd 2 120 fmempty\<rparr>"

text \<open>
  The first example scenario of the specification, with a fourth contributor who repeats
  the third one's range: the processor after \<^verbatim>\<open>consider\<close>, and its only topic.
\<close>

definition example_batch :: "anno list" where
  "example_batch =
     [example_anno 0 4 ''abcd'' ''A'', example_anno 2 6 ''cdef'' ''B'',
      example_anno 8 10 ''ij'' ''C'', example_anno 8 10 ''ij'' ''D'']"

definition example_processor :: ConsensusProcessor where
  "example_processor =
     (case ConsensusProcessor_consider ascii_dec (ConsensusProcessor_init ''task'' fmempty)
             example_batch of
        Returns p \<Rightarrow> p
      | Raises e p \<Rightarrow> p)"

definition example_topic :: TopicData where
  "example_topic = defaultdict_get TopicData_init (topics example_processor) ''T''"

text \<open>
  The fourth example scenario: three contributors choose the topic and submit no highlight.
\<close>

definition example_answer_processor :: ConsensusProcessor where
  "example_answer_processor =
     (case ConsensusProcessor_consider ascii_dec (ConsensusProcessor_init ''task'' fmempty)
             [example_anno 0 0 [] ''A'', example_anno 0 0 [] ''B'', example_anno 0 0 [] ''C''] of
        Returns p \<Rightarrow> p
      | Raises e p \<Rightarrow> p)"

definition example_answer_topic :: TopicData where
  "example_answer_topic = defaultdict_get TopicData_init (topics example_answer_processor) ''T''"

text \<open>
  Two contributors under each of the topic names \<^verbatim>\<open>T1\<close> and \<^verbatim>\<open>T9\<close>, whose hashes
  end in the same three bits.
\<close>

definition collision_batch :: "anno list" where
  "collision_batch =
     [(example_anno 0 4 ''abcd'' ''A'')\<lparr>anno.topic_name := ''T1''\<rparr>,
      (example_anno 0 4 ''abcd'' ''B'')\<lparr>anno.topic_name := ''T1''\<rparr>,
      (example_anno 2 6 ''cdef'' ''A'')\<lparr>anno.topic_name := ''T9''\<rparr>,
      (example_anno 2 6 ''cdef'' ''B'')\<lparr>anno.topic_name := ''T9''\<rparr>]"

text \<open>Two annotations under the empty topic name, with different namespaces.\<close>

definition unnamed_batch :: "anno list" where
  "unnamed_batch =
     [(example_anno 0 1 ''a'' ''A'')\<lparr>anno.topic_name := [], anno.namespace := ''n1''\<rparr>,
      (example_anno 0 1 ''a'' ''B'')\<lparr>anno.topic_name := [], anno.namespace := ''n2''\<rparr>]"

section \<open>Properties\<close>

subsection \<open>\<^verbatim>\<open>ArticleData.consider\<close>\<close>

lemma map_of_zip_upto:
  "map_of (zip [s..e] t) k =
     (if s \<le> k \<and> k \<le> e \<and> nat (k - s) < length t then Some (t ! nat (k - s)) else None)"
proof (induction t arbitrary: s)
  case Nil
  then show ?case by simp
next
  case (Cons c t)
  show ?case
  proof (cases "s \<le> e")
    case False
    then show ?thesis by simp
  next
    case True
    then have u: "[s..e] = s # [s + 1..e]" by (simp add: upto_rec1)
    show ?thesis
    proof (cases "k = s")
      case True
      with \<open>s \<le> e\<close> u show ?thesis by simp
    next
      case False
      have "nat (k - s) = Suc (nat (k - (s + 1)))" if "s < k" using that by simp
      with False u Cons.IH [of "s + 1"] show ?thesis
        by (auto simp: nth_Cons')
    qed
  qed
qed

lemma map_of_rev_distinct:
  "distinct (map fst kvs) \<Longrightarrow> map_of (rev kvs) = map_of kvs"
proof (induction kvs)
  case Nil
  then show ?case by simp
next
  case (Cons kv kvs)
  then have "fst kv \<notin> dom (map_of kvs)"
    by (simp add: dom_map_of_conv_image_fst)
  with Cons show ?case
    by (cases kv) (auto simp: map_add_def fun_eq_iff split: option.splits)
qed

lemma fmlookup_py_dict:
  "distinct (map fst kvs) \<Longrightarrow> fmlookup (py_dict kvs) = map_of kvs"
  by (simp add: py_dict_def fmlookup_of_list map_of_rev_distinct)

lemma distinct_fst_zip: "distinct xs \<Longrightarrow> distinct (map fst (zip xs ys))"
  by (induction xs arbitrary: ys) (case_tac ys; auto dest: set_zip_leftD)+

lemma fmlookup_anno_map_of:
  "fmlookup (anno_map_of dec a) k =
     (if anno.start_pos a \<le> k \<and> k < anno.end_pos a
         \<and> nat (k - anno.start_pos a) < length (dec (anno.target_text a))
      then Some (dec (anno.target_text a) ! nat (k - anno.start_pos a)) else None)"
  by (simp add: anno_map_of_def py_range_def fmlookup_py_dict distinct_fst_zip map_of_zip_upto)

lemma fmdom_anno_map_of:
  "k |\<in>| fmdom (anno_map_of dec a) \<longleftrightarrow>
     anno.start_pos a \<le> k \<and> k < anno.end_pos a
       \<and> nat (k - anno.start_pos a) < length (dec (anno.target_text a))"
  by (simp add: fmlookup_dom_iff fmlookup_anno_map_of)


lemma overlap_check_iff:
  "fBall (fmdom (char_dict self) |\<inter>| fmdom (anno_map_of dec a))
      (\<lambda>k. fmlookup (char_dict self) k = fmlookup (anno_map_of dec a) k)
   \<longleftrightarrow> \<not> char_mismatch dec self a"
proof
  assume ok: "fBall (fmdom (char_dict self) |\<inter>| fmdom (anno_map_of dec a))
      (\<lambda>k. fmlookup (char_dict self) k = fmlookup (anno_map_of dec a) k)"
  show "\<not> char_mismatch dec self a"
  proof
    assume "char_mismatch dec self a"
    then obtain i c where i: "i < length (dec (anno.target_text a))"
      "anno.start_pos a + int i < anno.end_pos a"
      "fmlookup (char_dict self) (anno.start_pos a + int i) = Some c"
      "c \<noteq> dec (anno.target_text a) ! i" by blast
    let ?k = "anno.start_pos a + int i"
    from i have am: "fmlookup (anno_map_of dec a) ?k = Some (dec (anno.target_text a) ! i)"
      by (simp add: fmlookup_anno_map_of)
    then have "?k |\<in>| fmdom (char_dict self) |\<inter>| fmdom (anno_map_of dec a)"
      using i(3) by (simp add: fmlookup_dom_iff)
    with ok have "fmlookup (char_dict self) ?k = fmlookup (anno_map_of dec a) ?k"
      by blast
    with am i(3,4) show False by simp
  qed
next
  assume no: "\<not> char_mismatch dec self a"
  show "fBall (fmdom (char_dict self) |\<inter>| fmdom (anno_map_of dec a))
      (\<lambda>k. fmlookup (char_dict self) k = fmlookup (anno_map_of dec a) k)"
  proof (rule ballI)
    fix k assume "k |\<in>| fmdom (char_dict self) |\<inter>| fmdom (anno_map_of dec a)"
    then have kc: "k |\<in>| fmdom (char_dict self)" and ka: "k |\<in>| fmdom (anno_map_of dec a)"
      by simp_all
    from kc obtain c where c: "fmlookup (char_dict self) k = Some c"
      by (auto simp: fmlookup_dom_iff)
    let ?i = "nat (k - anno.start_pos a)"
    from ka have r: "anno.start_pos a \<le> k" "k < anno.end_pos a"
      "?i < length (dec (anno.target_text a))"
      by (simp_all add: fmdom_anno_map_of)
    then have k: "anno.start_pos a + int ?i = k" by simp
    from no r k c have "c = dec (anno.target_text a) ! ?i" by force
    with r c show "fmlookup (char_dict self) k = fmlookup (anno_map_of dec a) k"
      by (simp add: fmlookup_anno_map_of)
  qed
qed

lemma ArticleData_consider_eq:
  fixes self :: ArticleData
  shows "ArticleData_consider dec self a =
     (if char_mismatch dec self a then Raises AssertionError self
      else if identity_mismatch self a
        then Raises AssertionError (self\<lparr>char_dict := char_dict self ++\<^sub>f anno_map_of dec a\<rparr>)
      else Returns \<lparr>ArticleData.article_sha256 = Some (anno.article_sha256 a),
                    ArticleData.article_filename = Some (anno.article_filename a),
                    char_dict = char_dict self ++\<^sub>f anno_map_of dec a\<rparr>)"
proof (cases "char_mismatch dec self a")
  case True
  then show ?thesis
    using overlap_check_iff [of self dec a] by (simp add: ArticleData_consider_def Let_def)
next
  case False
  then have ok: "fBall (fmdom (char_dict self) |\<inter>| fmdom (anno_map_of dec a))
      (\<lambda>k. fmlookup (char_dict self) k = fmlookup (anno_map_of dec a) k)"
    using overlap_check_iff [of self dec a] by simp
  show ?thesis
  proof (cases "ArticleData.article_sha256 self")
    case None
    with ok False show ?thesis
      by (simp add: ArticleData_consider_def Let_def)
  next
    case (Some h)
    with ok False show ?thesis
      by (cases self) (auto simp add: ArticleData_consider_def Let_def)
  qed
qed

lemma consider_char_mismatch:
  fixes self :: ArticleData
  assumes "char_mismatch dec self a"
  shows "ArticleData_consider dec self a = Raises AssertionError self"
  by (simp only: ArticleData_consider_eq assms if_True)

lemma consider_identity_mismatch:
  fixes self :: ArticleData
  assumes "\<not> char_mismatch dec self a" "identity_mismatch self a"
  shows "ArticleData_consider dec self a =
     Raises AssertionError (self\<lparr>char_dict := char_dict self ++\<^sub>f anno_map_of dec a\<rparr>)"
  by (simp only: ArticleData_consider_eq assms if_True if_False)

lemma consider_consistent:
  fixes self :: ArticleData
  assumes "\<not> char_mismatch dec self a" "\<not> identity_mismatch self a"
  shows "ArticleData_consider dec self a =
     Returns \<lparr>ArticleData.article_sha256 = Some (anno.article_sha256 a),
              ArticleData.article_filename = Some (anno.article_filename a),
              char_dict = char_dict self ++\<^sub>f anno_map_of dec a\<rparr>"
  by (simp only: ArticleData_consider_eq assms if_False)

lemma get_chars_missing:
  "p \<in> set xs \<Longrightarrow> fmlookup (char_dict ad) p = None \<Longrightarrow> get_chars ad xs = Inl KeyError"
proof (induction xs)
  case Nil
  then show ?case by simp
next
  case (Cons x xs)
  show ?case
  proof (cases "fmlookup (char_dict ad) x")
    case None
    then show ?thesis by (simp add: ArticleData_get_def)
  next
    case (Some c)
    with Cons.prems have "p \<in> set xs" by auto
    with Cons have "get_chars ad xs = Inl KeyError" by simp
    with Some show ?thesis by (simp add: ArticleData_get_def)
  qed
qed

lemma get_chars_error: "get_chars ad xs = Inl e \<Longrightarrow> e = KeyError"
  by (induction xs arbitrary: e)
     (auto simp: ArticleData_get_def split: option.splits sum.splits)

lemma set_text_error: "set_text enc self offsets = Inl e \<Longrightarrow> e = KeyError"
  by (induction offsets arbitrary: e)
     (auto simp: Let_def split: sum.splits dest: get_chars_error)

lemma mem_py_range: "p \<in> set (py_range a b) \<longleftrightarrow> a \<le> p \<and> p < b"
  by (auto simp: py_range_def)

lemma set_text_missing:
  assumes "ofs \<in> set offsets" "offset.start_pos ofs \<le> p" "p < offset.end_pos ofs"
    and "fmlookup (char_dict (article_data self)) p = None"
  shows "set_text enc self offsets = Inl KeyError"
  using assms(1)
proof (induction offsets)
  case Nil
  then show ?case by simp
next
  case (Cons x offsets)
  show ?case
  proof (cases "get_chars (article_data self) (py_range (offset.start_pos x) (offset.end_pos x))")
    case (Inl e)
    then show ?thesis by (simp add: Let_def get_chars_error)
  next
    case (Inr chars)
    have "ofs \<noteq> x"
    proof
      assume "ofs = x"
      with assms(2,3) have "p \<in> set (py_range (offset.start_pos x) (offset.end_pos x))"
        by (simp add: mem_py_range)
      from get_chars_missing [OF this assms(4)] Inr show False by simp
    qed
    with Cons have "set_text enc self offsets = Inl KeyError" by simp
    with Inr show ?thesis by (simp add: Let_def)
  qed
qed

text \<open>
  Claim C8. \<^verbatim>\<open>ArticleData.consider\<close> raises the assertion error exactly when the decoded
  text gives an already known position a different character, or when an article identity is
  recorded and the annotation's \<^verbatim>\<open>article_sha256\<close> or \<^verbatim>\<open>article_filename\<close> differs from
  it. On any other annotation it returns, with the annotation's positions merged into
  \<^verbatim>\<open>char_dict\<close> and the identity recorded.
\<close>

theorem ArticleData_consider_fails_exactly_when:
  fixes self :: ArticleData
  shows
  "((\<exists>s. ArticleData_consider dec self a = Raises AssertionError s)
      \<longleftrightarrow> char_mismatch dec self a \<or> identity_mismatch self a)
   \<and> (\<not> (char_mismatch dec self a \<or> identity_mismatch self a) \<longrightarrow>
        ArticleData_consider dec self a =
          Returns \<lparr>ArticleData.article_sha256 = Some (anno.article_sha256 a),
                   ArticleData.article_filename = Some (anno.article_filename a),
                   char_dict = char_dict self ++\<^sub>f anno_map_of dec a\<rparr>)"
proof (cases "char_mismatch dec self a")
  case True
  from consider_char_mismatch [where dec=dec and self=self and a=a, OF this] True show ?thesis by blast
next
  case cm: False
  show ?thesis
  proof (cases "identity_mismatch self a")
    case True
    from consider_identity_mismatch [where dec=dec and self=self and a=a, OF cm this] True show ?thesis by blast
  next
    case False
    from consider_consistent [where dec=dec and self=self and a=a, OF cm this] cm False show ?thesis by simp
  qed
qed

theorem ArticleData_consider_fails_exactly_when_witness:
  "ArticleData_consider ascii_dec ArticleData_init (example_anno 2 4 ''cd'' ''A'') =
     Returns \<lparr>ArticleData.article_sha256 = Some ''sha'',
              ArticleData.article_filename = Some ''file'',
              char_dict = fmupd 2 99 (fmupd 3 100 fmempty)\<rparr>
   \<and> (\<exists>s. ArticleData_consider ascii_dec example_article (example_anno 2 4 ''cd'' ''A'')
             = Raises AssertionError s)"
proof
  let ?a = "example_anno 2 4 ''cd'' ''A''"
  have ok: "\<not> (char_mismatch ascii_dec ArticleData_init ?a \<or> identity_mismatch ArticleData_init ?a)"
    by (simp add: ArticleData_init_def)
  have cd: "char_dict ArticleData_init ++\<^sub>f anno_map_of ascii_dec ?a
      = fmupd 2 99 (fmupd 3 100 fmempty)"
    by code_simp
  have id: "anno.article_sha256 ?a = ''sha''" "anno.article_filename ?a = ''file''"
    by (simp_all add: example_anno_def)
  from ArticleData_consider_fails_exactly_when
         [where dec = ascii_dec and self = ArticleData_init and a = ?a, THEN conjunct2, rule_format, OF ok]
  show "ArticleData_consider ascii_dec ArticleData_init ?a =
     Returns \<lparr>ArticleData.article_sha256 = Some ''sha'',
              ArticleData.article_filename = Some ''file'',
              char_dict = fmupd 2 99 (fmupd 3 100 fmempty)\<rparr>"
    by (simp only: cd id)
next
  let ?a = "example_anno 2 4 ''cd'' ''A''"
  have "char_mismatch ascii_dec example_article ?a"
    by (rule exI [of _ 0]) (simp add: example_article_def example_anno_def ascii_dec_def)
  then have "char_mismatch ascii_dec example_article ?a \<or> identity_mismatch example_article ?a" ..
  with ArticleData_consider_fails_exactly_when
         [where dec = ascii_dec and self = example_article and a = ?a, THEN conjunct1]
  show "\<exists>s. ArticleData_consider ascii_dec example_article ?a = Raises AssertionError s"
    by (rule iffD2)
qed

text \<open>
  Claim C9. \<^verbatim>\<open>ArticleData.consider\<close> is not atomic: when the characters agree and the
  call fails on the article identity, the object it leaves behind already holds the
  annotation's characters in \<^verbatim>\<open>char_dict\<close>; the recorded identity is unchanged.
\<close>

theorem ArticleData_consider_not_atomic:
  fixes self :: ArticleData
  assumes "\<not> char_mismatch dec self a" and "identity_mismatch self a"
  shows "\<exists>s. ArticleData_consider dec self a = Raises AssertionError s
           \<and> ArticleData.article_sha256 s = ArticleData.article_sha256 self
           \<and> ArticleData.article_filename s = ArticleData.article_filename self
           \<and> char_dict s = char_dict self ++\<^sub>f anno_map_of dec a
           \<and> (\<forall>i < length (dec (anno.target_text a)).
                 anno.start_pos a + int i < anno.end_pos a \<longrightarrow>
                 fmlookup (char_dict s) (anno.start_pos a + int i)
                   = Some (dec (anno.target_text a) ! i))"
proof -
  let ?s = "self\<lparr>char_dict := char_dict self ++\<^sub>f anno_map_of dec a\<rparr>"
  have "fmlookup (char_dict ?s) (anno.start_pos a + int i) = Some (dec (anno.target_text a) ! i)"
    if "i < length (dec (anno.target_text a))" "anno.start_pos a + int i < anno.end_pos a" for i
    using that by (simp add: fmlookup_anno_map_of fmdom_anno_map_of)
  with consider_identity_mismatch [where dec=dec and self=self and a=a, OF assms] show ?thesis by simp
qed

theorem ArticleData_consider_not_atomic_witness:
  "\<exists>s. ArticleData_consider ascii_dec example_article
          ((example_anno 3 5 ''de'' ''A'')\<lparr>anno.article_sha256 := ''other''\<rparr>)
        = Raises AssertionError s
      \<and> fmlookup (char_dict s) 3 = Some 100
      \<and> fmlookup (char_dict example_article) 3 = None"
proof -
  let ?a = "(example_anno 3 5 ''de'' ''A'')\<lparr>anno.article_sha256 := ''other''\<rparr>"
  have len: "length (ascii_dec (anno.target_text ?a)) = 2"
    by (simp add: example_anno_def ascii_dec_def)
  have cm: "\<not> char_mismatch ascii_dec example_article ?a"
    by (auto simp: example_article_def example_anno_def)
  have im: "identity_mismatch example_article ?a"
    by (simp add: example_article_def example_anno_def)
  from ArticleData_consider_not_atomic [where dec = ascii_dec and self = example_article and a = ?a,
         OF cm im]
  obtain s where s: "ArticleData_consider ascii_dec example_article ?a = Raises AssertionError s"
    and new: "\<forall>i < length (ascii_dec (anno.target_text ?a)).
                 anno.start_pos ?a + int i < anno.end_pos ?a \<longrightarrow>
                 fmlookup (char_dict s) (anno.start_pos ?a + int i)
                   = Some (ascii_dec (anno.target_text ?a) ! i)"
    by blast
  from new [rule_format, of 0] have "fmlookup (char_dict s) 3 = Some 100"
    by (simp add: example_anno_def ascii_dec_def)
  moreover have "fmlookup (char_dict example_article) 3 = None"
    by (simp add: example_article_def)
  ultimately show ?thesis using s by blast
qed

text \<open>
  Claim C10. The length of the decoded text is never compared with the length of the range.
  When the text is shorter than the range, the call fails only on one of the two integrity
  conditions; otherwise it returns, having recorded the first \<open>len(text)\<close> positions of the
  range only. A remaining position that no earlier annotation supplied is absent from
  \<^verbatim>\<open>char_dict\<close>: \<^verbatim>\<open>get\<close> raises \<^verbatim>\<open>KeyError\<close> there, and so does \<^verbatim>\<open>set_text\<close> on any
  list of ranges one of which contains it.
\<close>

theorem short_text_is_accepted:
  fixes self :: ArticleData
  assumes short: "int (length (dec (anno.target_text a))) < anno.end_pos a - anno.start_pos a"
  shows
  "((\<exists>e s. ArticleData_consider dec self a = Raises e s)
      \<longleftrightarrow> char_mismatch dec self a \<or> identity_mismatch self a)
   \<and> (\<not> char_mismatch dec self a \<and> \<not> identity_mismatch self a \<longrightarrow>
       (\<exists>s. ArticleData_consider dec self a = Returns s
          \<and> fmdom (char_dict s) = fmdom (char_dict self) |\<union>|
               fset_of_list (py_range (anno.start_pos a)
                  (anno.start_pos a + int (length (dec (anno.target_text a)))))
          \<and> (\<forall>p. anno.start_pos a + int (length (dec (anno.target_text a))) \<le> p
                 \<and> p < anno.end_pos a \<and> p |\<notin>| fmdom (char_dict self) \<longrightarrow>
                 p |\<notin>| fmdom (char_dict s)
                 \<and> ArticleData_get s p = Inl KeyError
                 \<and> (\<forall>enc proc offsets.
                       article_data proc = s
                       \<and> (\<exists>ofs \<in> set offsets. offset.start_pos ofs \<le> p \<and> p < offset.end_pos ofs)
                       \<longrightarrow> set_text enc proc offsets = Inl KeyError))))"
proof (intro conjI impI)
  show "(\<exists>e s. ArticleData_consider dec self a = Raises e s)
      \<longleftrightarrow> char_mismatch dec self a \<or> identity_mismatch self a"
  proof (cases "char_mismatch dec self a")
    case True
    from consider_char_mismatch [where dec=dec and self=self and a=a, OF this] True show ?thesis by blast
  next
    case cm: False
    show ?thesis
    proof (cases "identity_mismatch self a")
      case True
      from consider_identity_mismatch [where dec=dec and self=self and a=a, OF cm this] True show ?thesis by blast
    next
      case False
      from consider_consistent [where dec=dec and self=self and a=a, OF cm this] cm False show ?thesis by simp
    qed
  qed
next
  assume ok: "\<not> char_mismatch dec self a \<and> \<not> identity_mismatch self a"
  let ?n = "length (dec (anno.target_text a))"
  let ?s = "\<lparr>ArticleData.article_sha256 = Some (anno.article_sha256 a),
             ArticleData.article_filename = Some (anno.article_filename a),
             char_dict = char_dict self ++\<^sub>f anno_map_of dec a\<rparr>"
  from ok have ret: "ArticleData_consider dec self a = Returns ?s"
    using consider_consistent [where dec=dec and self=self and a=a] by blast
  have dom_am: "fmdom (anno_map_of dec a)
      = fset_of_list (py_range (anno.start_pos a) (anno.start_pos a + int ?n))"
  proof (rule fset_eqI)
    fix k
    show "k |\<in>| fmdom (anno_map_of dec a)
      \<longleftrightarrow> k |\<in>| fset_of_list (py_range (anno.start_pos a) (anno.start_pos a + int ?n))"
      using short by (auto simp: fmdom_anno_map_of fset_of_list_elem mem_py_range)
  qed
  have dom: "fmdom (char_dict ?s) = fmdom (char_dict self) |\<union>|
      fset_of_list (py_range (anno.start_pos a) (anno.start_pos a + int ?n))"
    by (simp add: dom_am)
  have rest: "p |\<notin>| fmdom (char_dict ?s) \<and> ArticleData_get ?s p = Inl KeyError
       \<and> (\<forall>enc proc offsets.
             article_data proc = ?s
             \<and> (\<exists>ofs \<in> set offsets. offset.start_pos ofs \<le> p \<and> p < offset.end_pos ofs)
             \<longrightarrow> set_text enc proc offsets = Inl KeyError)"
    if p: "anno.start_pos a + int ?n \<le> p \<and> p < anno.end_pos a \<and> p |\<notin>| fmdom (char_dict self)"
    for p
  proof -
    from p have "p |\<notin>| fmdom (anno_map_of dec a)"
      by (auto simp: fmdom_anno_map_of)
    with p have absent: "p |\<notin>| fmdom (char_dict ?s)" by simp
    then have none: "fmlookup (char_dict ?s) p = None"
      by (metis fmdom_notD)
    then have "ArticleData_get ?s p = Inl KeyError"
      by (simp add: ArticleData_get_def)
    moreover have "set_text enc proc offsets = Inl KeyError"
      if "article_data proc = ?s
          \<and> (\<exists>ofs \<in> set offsets. offset.start_pos ofs \<le> p \<and> p < offset.end_pos ofs)"
      for enc proc offsets
      using that none by (auto intro: set_text_missing)
    ultimately show ?thesis using absent by blast
  qed
  from ret dom rest
  show "\<exists>s. ArticleData_consider dec self a = Returns s
          \<and> fmdom (char_dict s) = fmdom (char_dict self) |\<union>|
               fset_of_list (py_range (anno.start_pos a)
                  (anno.start_pos a + int (length (dec (anno.target_text a)))))
          \<and> (\<forall>p. anno.start_pos a + int (length (dec (anno.target_text a))) \<le> p
                 \<and> p < anno.end_pos a \<and> p |\<notin>| fmdom (char_dict self) \<longrightarrow>
                 p |\<notin>| fmdom (char_dict s)
                 \<and> ArticleData_get s p = Inl KeyError
                 \<and> (\<forall>enc proc offsets.
                       article_data proc = s
                       \<and> (\<exists>ofs \<in> set offsets. offset.start_pos ofs \<le> p \<and> p < offset.end_pos ofs)
                       \<longrightarrow> set_text enc proc offsets = Inl KeyError))"
    by blast
qed

theorem short_text_is_accepted_witness:
  "\<exists>s. ArticleData_consider ascii_dec ArticleData_init (example_anno 0 4 ''ab'' ''A'') = Returns s
      \<and> fmdom (char_dict s) = {|0, 1|}
      \<and> ArticleData_get s 2 = Inl KeyError
      \<and> set_text ascii_enc ((ConsensusProcessor_init ''task'' fmempty)\<lparr>article_data := s\<rparr>)
            [\<lparr>offset.start_pos = 0, offset.end_pos = 4\<rparr>] = Inl KeyError"
proof -
  let ?a = "example_anno 0 4 ''ab'' ''A''"
  have short: "int (length (ascii_dec (anno.target_text ?a))) < anno.end_pos ?a - anno.start_pos ?a"
    by (simp add: example_anno_def ascii_dec_def)
  have ok: "\<not> char_mismatch ascii_dec ArticleData_init ?a \<and> \<not> identity_mismatch ArticleData_init ?a"
    by (simp add: ArticleData_init_def)
  from short_text_is_accepted [where dec = ascii_dec and self = ArticleData_init and a = ?a,
         OF short, THEN conjunct2, rule_format, OF ok]
  obtain s where s: "ArticleData_consider ascii_dec ArticleData_init ?a = Returns s"
    and dom: "fmdom (char_dict s) = fmdom (char_dict ArticleData_init) |\<union>|
               fset_of_list (py_range (anno.start_pos ?a)
                  (anno.start_pos ?a + int (length (ascii_dec (anno.target_text ?a)))))"
    and rest: "\<forall>p. anno.start_pos ?a + int (length (ascii_dec (anno.target_text ?a))) \<le> p
                 \<and> p < anno.end_pos ?a \<and> p |\<notin>| fmdom (char_dict ArticleData_init) \<longrightarrow>
                 p |\<notin>| fmdom (char_dict s)
                 \<and> ArticleData_get s p = Inl KeyError
                 \<and> (\<forall>enc proc offsets.
                       article_data proc = s
                       \<and> (\<exists>ofs \<in> set offsets. offset.start_pos ofs \<le> p \<and> p < offset.end_pos ofs)
                       \<longrightarrow> set_text enc proc offsets = Inl KeyError)"
    by blast
  have "fmdom (char_dict ArticleData_init) |\<union>|
               fset_of_list (py_range (anno.start_pos ?a)
                  (anno.start_pos ?a + int (length (ascii_dec (anno.target_text ?a))))) = {|0, 1|}"
    by code_simp
  with dom have d: "fmdom (char_dict s) = {|0, 1|}" by simp
  have p: "anno.start_pos ?a + int (length (ascii_dec (anno.target_text ?a))) \<le> 2
                 \<and> 2 < anno.end_pos ?a \<and> 2 |\<notin>| fmdom (char_dict ArticleData_init)"
    by (simp add: example_anno_def ascii_dec_def ArticleData_init_def)
  from rest [rule_format, OF p]
  have g: "ArticleData_get s 2 = Inl KeyError"
    and st: "\<And>enc proc offsets. article_data proc = s
                 \<and> (\<exists>ofs \<in> set offsets. offset.start_pos ofs \<le> 2 \<and> 2 < offset.end_pos ofs)
                 \<Longrightarrow> set_text enc proc offsets = Inl KeyError"
    by blast+
  have "set_text ascii_enc ((ConsensusProcessor_init ''task'' fmempty)\<lparr>article_data := s\<rparr>)
            [\<lparr>offset.start_pos = 0, offset.end_pos = 4\<rparr>] = Inl KeyError"
    by (rule st) simp
  with s d g show ?thesis by blast
qed

subsection \<open>The redundancy filter of \<^verbatim>\<open>ConsensusProcessor.consider\<close>\<close>

lemma consider_loop_filter:
  "consider_loop dec mr self batch =
     consider_loop dec mr self (filter (\<lambda>a. \<not> taskrun_count a < mr) batch)"
  by (induction batch arbitrary: self) (simp_all add: Let_def split: outcome.splits)

text \<open>
  Claim C6. An annotation whose \<^verbatim>\<open>taskrun_count\<close> is below \<^verbatim>\<open>minimum_redundancy\<close> is
  skipped without any effect on the processor: considering it alone returns the processor
  unchanged, so neither \<^verbatim>\<open>char_dict\<close> nor any contributor's flattened set changes; removing
  it from anywhere in a batch, or removing all such annotations, leaves the outcome of
  \<^verbatim>\<open>consider\<close> (the resulting processor, or the error and the state reached) the same, and
  with it everything that is later extracted from the processor.
\<close>

theorem redundancy_filter:
  "ConsensusProcessor_consider dec self batch =
     ConsensusProcessor_consider dec self
       (filter (\<lambda>a. \<not> taskrun_count a
                       < dict_get (iaa_config self) ''minimum_redundancy'' MIN_REDUNDANCY) batch)
   \<and> (\<forall>a. taskrun_count a < dict_get (iaa_config self) ''minimum_redundancy'' MIN_REDUNDANCY \<longrightarrow>
          ConsensusProcessor_consider dec self [a] = Returns self
          \<and> (\<forall>pre post. ConsensusProcessor_consider dec self (pre @ a # post)
                           = ConsensusProcessor_consider dec self (pre @ post)))"
proof (intro conjI allI impI)
  show "ConsensusProcessor_consider dec self batch =
     ConsensusProcessor_consider dec self
       (filter (\<lambda>a. \<not> taskrun_count a
                       < dict_get (iaa_config self) ''minimum_redundancy'' MIN_REDUNDANCY) batch)"
    unfolding ConsensusProcessor_consider_def Let_def by (rule consider_loop_filter)
next
  fix a :: anno
  assume low: "taskrun_count a < dict_get (iaa_config self) ''minimum_redundancy'' MIN_REDUNDANCY"
  then show "ConsensusProcessor_consider dec self [a] = Returns self"
    by (simp add: ConsensusProcessor_consider_def)
  fix pre post
  let ?mr = "dict_get (iaa_config self) ''minimum_redundancy'' MIN_REDUNDANCY"
  have "consider_loop dec ?mr self (pre @ a # post) =
        consider_loop dec ?mr self (filter (\<lambda>a. \<not> taskrun_count a < ?mr) (pre @ a # post))"
    by (rule consider_loop_filter)
  also have "filter (\<lambda>a. \<not> taskrun_count a < ?mr) (pre @ a # post)
      = filter (\<lambda>a. \<not> taskrun_count a < ?mr) (pre @ post)"
    using low by simp
  also have "consider_loop dec ?mr self \<dots> = consider_loop dec ?mr self (pre @ post)"
    by (rule consider_loop_filter [symmetric])
  finally show "ConsensusProcessor_consider dec self (pre @ a # post)
                           = ConsensusProcessor_consider dec self (pre @ post)"
    by (simp add: ConsensusProcessor_consider_def)
qed

theorem redundancy_filter_witness:
  "ConsensusProcessor_consider ascii_dec (ConsensusProcessor_init ''task'' fmempty)
      [(example_anno 0 4 ''abcd'' ''A'')\<lparr>taskrun_count := 2\<rparr>]
     = Returns (ConsensusProcessor_init ''task'' fmempty)
   \<and> ConsensusProcessor_consider ascii_dec (ConsensusProcessor_init ''task'' fmempty)
        [example_anno 0 4 ''abcd'' ''A'', (example_anno 2 6 ''xxxx'' ''B'')\<lparr>taskrun_count := 2\<rparr>,
         example_anno 8 10 ''ij'' ''C'']
     = ConsensusProcessor_consider ascii_dec (ConsensusProcessor_init ''task'' fmempty)
        [example_anno 0 4 ''abcd'' ''A'', example_anno 8 10 ''ij'' ''C'']"
proof -
  let ?p = "ConsensusProcessor_init ''task'' fmempty"
  have low: "taskrun_count (a\<lparr>taskrun_count := 2\<rparr>)
      < dict_get (iaa_config ?p) ''minimum_redundancy'' MIN_REDUNDANCY" for a :: anno
    by (simp add: ConsensusProcessor_init_def dict_get_def MIN_REDUNDANCY_def)
  note rf = redundancy_filter [where dec = ascii_dec and self = ?p and batch = "[]",
      THEN conjunct2, rule_format]
  from rf [OF low [of "example_anno 0 4 ''abcd'' ''A''"], THEN conjunct1]
  have one: "ConsensusProcessor_consider ascii_dec ?p
      [(example_anno 0 4 ''abcd'' ''A'')\<lparr>taskrun_count := 2\<rparr>] = Returns ?p" .
  from rf [OF low [of "example_anno 2 6 ''xxxx'' ''B''"], THEN conjunct2, rule_format,
      of "[example_anno 0 4 ''abcd'' ''A'']" "[example_anno 8 10 ''ij'' ''C'']"]
  have two: "ConsensusProcessor_consider ascii_dec ?p
        [example_anno 0 4 ''abcd'' ''A'', (example_anno 2 6 ''xxxx'' ''B'')\<lparr>taskrun_count := 2\<rparr>,
         example_anno 8 10 ''ij'' ''C'']
     = ConsensusProcessor_consider ascii_dec ?p
        [example_anno 0 4 ''abcd'' ''A'', example_anno 8 10 ''ij'' ''C'']"
    by simp
  from one two show ?thesis by (rule conjI)
qed

subsection \<open>\<^verbatim>\<open>TopicData.sum_contribs\<close>\<close>

lemma fold_Counter_add:
  "fold (\<lambda>(contrib_uuid, contrib_data) topic_counter.
             topic_counter + Counter (flattened contrib_data)) xs acc
   = acc + (\<Sum>x\<leftarrow>xs. Counter (flattened (snd x)))"
  by (induction xs arbitrary: acc) (simp_all add: case_prod_beta ac_simps)

lemma count_Counter: "count (Counter s) p = (if p |\<in>| s then 1 else 0)"
  by (simp add: Counter_def)

lemma count_sum_list_Counter:
  "count (\<Sum>x\<leftarrow>xs. Counter (flattened (snd x))) p
     = length (filter (\<lambda>x. p |\<in>| flattened (snd x)) xs)"
  by (induction xs) (simp_all add: count_Counter)

lemma distinct_sorted_list_of_fset [simp]: "distinct (sorted_list_of_fset S)"
  by (simp add: sorted_list_of_fset.rep_eq)

lemma sorted_sorted_list_of_fset [simp]: "sorted (sorted_list_of_fset S)"
  by (simp add: sorted_list_of_fset.rep_eq)

lemma count_sum_contribs:
  "count (sum_contribs self) p =
     fcard (ffilter (\<lambda>u. p |\<in>| flattened (the (fmlookup (contrib_dict self) u)))
               (fmdom (contrib_dict self)))"
proof -
  let ?m = "contrib_dict self"
  let ?ks = "sorted_list_of_fset (fmdom ?m)"
  let ?Q = "\<lambda>u. p |\<in>| flattened (the (fmlookup ?m u))"
  have items: "iteritems ?m = map (\<lambda>k. (k, the (fmlookup ?m k))) ?ks"
    by (simp add: iteritems_def sorted_list_of_fmap_def)
  have "sum_contribs self = (\<Sum>x\<leftarrow>iteritems ?m. Counter (flattened (snd x)))"
    by (simp add: sum_contribs_def fold_Counter_add)
  then have "count (sum_contribs self) p
      = length (filter (\<lambda>x. p |\<in>| flattened (snd x)) (iteritems ?m))"
    by (simp only: count_sum_list_Counter)
  also have "\<dots> = length (filter ?Q ?ks)"
    by (simp add: items filter_map comp_def)
  also have "\<dots> = card ({u. ?Q u} \<inter> set ?ks)"
    by (simp add: distinct_length_filter)
  also have "{u. ?Q u} \<inter> set ?ks = fset (ffilter ?Q (fmdom ?m))"
    by auto
  finally show ?thesis by (simp add: fcard.rep_eq)
qed

lemma flattened_consider:
  "flattened (ContribData_consider c a)
     = flattened c |\<union>| fset_of_list (py_range (anno.start_pos a) (anno.end_pos a))"
  by (simp add: ContribData_consider_def Let_def)

lemma contrib_dict_consider:
  "contrib_dict (case TopicData_consider t a of Returns t' \<Rightarrow> t' | Raises e t' \<Rightarrow> t')
     = fmupd (contributor_uuid a)
         (ContribData_consider (defaultdict_get ContribData_init (contrib_dict t) (contributor_uuid a)) a)
         (contrib_dict t)"
  by (simp add: TopicData_consider_def Let_def)


lemma contrib_dict_Returns:
  "TopicData_consider t a = Returns t' \<Longrightarrow>
     contrib_dict t' = fmupd (contributor_uuid a)
         (ContribData_consider (defaultdict_get ContribData_init (contrib_dict t) (contributor_uuid a)) a)
         (contrib_dict t)"
  using contrib_dict_consider [of t a] by simp

lemma TopicData_consider_Returns_iff:
  "(\<exists>t'. TopicData_consider t a = Returns t') \<longleftrightarrow>
     TopicData.topic_name t = []
     \<or> (TopicData.topic_name t = anno.topic_name a \<and> TopicData.namespace t = anno.namespace a)"
  by (auto simp: TopicData_consider_def Let_def)

lemma count_sum_contribs_cong:
  assumes "fmdom (contrib_dict t) = fmdom (contrib_dict t')"
    and "\<And>u. u |\<in>| fmdom (contrib_dict t) \<Longrightarrow>
           flattened (the (fmlookup (contrib_dict t) u)) = flattened (the (fmlookup (contrib_dict t') u))"
  shows "count (sum_contribs t) p = count (sum_contribs t') p"
proof -
  have "ffilter (\<lambda>u. p |\<in>| flattened (the (fmlookup (contrib_dict t) u))) (fmdom (contrib_dict t))
      = ffilter (\<lambda>u. p |\<in>| flattened (the (fmlookup (contrib_dict t') u))) (fmdom (contrib_dict t'))"
    using assms by auto
  then show ?thesis by (simp only: count_sum_contribs)
qed

lemma count_sum_contribs_fmupd_le:
  assumes "contrib_dict t' = fmupd u c (contrib_dict t)"
  shows "count (sum_contribs t') p \<le> count (sum_contribs t) p + 1"
proof -
  let ?A = "ffilter (\<lambda>v. p |\<in>| flattened (the (fmlookup (contrib_dict t) v))) (fmdom (contrib_dict t))"
  have "ffilter (\<lambda>v. p |\<in>| flattened (the (fmlookup (contrib_dict t') v))) (fmdom (contrib_dict t'))
      |\<subseteq>| finsert u ?A"
    using assms by auto
  then have "fcard (ffilter (\<lambda>v. p |\<in>| flattened (the (fmlookup (contrib_dict t') v)))
                 (fmdom (contrib_dict t'))) \<le> fcard (finsert u ?A)"
    by (rule fcard_mono)
  also have "\<dots> \<le> fcard ?A + 1"
    by (simp add: fcard_finsert_if)
  finally show ?thesis by (simp only: count_sum_contribs)
qed

lemma range_union:
  assumes "max s1 s2 < min e1 e2"
  shows "fset_of_list (py_range s1 e1) |\<union>| fset_of_list (py_range s2 e2)
       = fset_of_list (py_range (min s1 s2) (max e1 e2))"
  using assms by (auto simp: fset_of_list_elem py_range_def)

lemma TopicData_consider_Returns_fields:
  "TopicData_consider t a = Returns t' \<Longrightarrow>
     TopicData.topic_name t' = anno.topic_name a \<and> TopicData.namespace t' = anno.namespace a"
  by (auto simp: TopicData_consider_def Let_def split: if_splits)

text \<open>
  Claim C1. The count that \<^verbatim>\<open>sum_contribs\<close> gives a position is the number of
  contributors of the topic whose flattened set contains the position. A contributor adds at
  most 1 at any position. When one contributor submits two overlapping ranges, every count is
  the same as after a single submission of their union, and at most one more than before.
\<close>

theorem sum_contribs_counts_contributors:
  "count (sum_contribs self) p =
     fcard (ffilter (\<lambda>u. p |\<in>| flattened (the (fmlookup (contrib_dict self) u)))
               (fmdom (contrib_dict self)))
   \<and> (\<forall>contrib_data :: ContribData. count (Counter (flattened contrib_data)) p \<le> 1)
   \<and> (\<forall>a1 a2 t1 t2.
         contributor_uuid a1 = contributor_uuid a2
         \<and> max (anno.start_pos a1) (anno.start_pos a2) < min (anno.end_pos a1) (anno.end_pos a2)
         \<and> TopicData_consider self a1 = Returns t1 \<and> TopicData_consider t1 a2 = Returns t2
         \<longrightarrow> (\<exists>t12. TopicData_consider self
                       (a1\<lparr>anno.start_pos := min (anno.start_pos a1) (anno.start_pos a2),
                           anno.end_pos := max (anno.end_pos a1) (anno.end_pos a2)\<rparr>) = Returns t12
                   \<and> count (sum_contribs t2) p = count (sum_contribs t12) p
                   \<and> count (sum_contribs t2) p \<le> count (sum_contribs self) p + 1))"
proof (intro conjI allI impI)
  show "count (sum_contribs self) p =
     fcard (ffilter (\<lambda>u. p |\<in>| flattened (the (fmlookup (contrib_dict self) u)))
               (fmdom (contrib_dict self)))"
    by (rule count_sum_contribs)
next
  fix contrib_data :: ContribData
  show "count (Counter (flattened contrib_data)) p \<le> 1"
    by (simp add: count_Counter)
next
  fix a1 a2 :: anno and t1 t2 :: TopicData
  assume h: "contributor_uuid a1 = contributor_uuid a2
         \<and> max (anno.start_pos a1) (anno.start_pos a2) < min (anno.end_pos a1) (anno.end_pos a2)
         \<and> TopicData_consider self a1 = Returns t1 \<and> TopicData_consider t1 a2 = Returns t2"
  let ?u = "contributor_uuid a1"
  let ?c0 = "defaultdict_get ContribData_init (contrib_dict self) ?u"
  let ?a12 = "a1\<lparr>anno.start_pos := min (anno.start_pos a1) (anno.start_pos a2),
                           anno.end_pos := max (anno.end_pos a1) (anno.end_pos a2)\<rparr>"
  from h have u: "contributor_uuid a2 = ?u"
    and ov: "max (anno.start_pos a1) (anno.start_pos a2) < min (anno.end_pos a1) (anno.end_pos a2)"
    and r1: "TopicData_consider self a1 = Returns t1"
    and r2: "TopicData_consider t1 a2 = Returns t2"
    by simp_all
  note cd1 = contrib_dict_Returns [OF r1]
  have "defaultdict_get ContribData_init (contrib_dict t1) ?u = ContribData_consider ?c0 a1"
    by (simp add: cd1 defaultdict_get_def)
  with contrib_dict_Returns [OF r2] have cd2: "contrib_dict t2 =
      fmupd ?u (ContribData_consider (ContribData_consider ?c0 a1) a2) (contrib_dict self)"
    by (simp add: u cd1)
  from r1 have "\<exists>t'. TopicData_consider self a1 = Returns t'" by blast
  then have "\<exists>t'. TopicData_consider self ?a12 = Returns t'"
    by (simp add: TopicData_consider_Returns_iff)
  then obtain t12 where t12: "TopicData_consider self ?a12 = Returns t12" ..
  from contrib_dict_Returns [OF t12]
  have cd12: "contrib_dict t12 = fmupd ?u (ContribData_consider ?c0 ?a12) (contrib_dict self)"
    by simp
  have fl: "flattened (ContribData_consider (ContribData_consider ?c0 a1) a2)
      = flattened (ContribData_consider ?c0 ?a12)"
    using range_union [OF ov] by (simp add: flattened_consider funion_assoc)
  have eq: "count (sum_contribs t2) p = count (sum_contribs t12) p"
  proof (rule count_sum_contribs_cong)
    show "fmdom (contrib_dict t2) = fmdom (contrib_dict t12)"
      by (simp add: cd2 cd12)
  next
    fix v
    show "flattened (the (fmlookup (contrib_dict t2) v))
        = flattened (the (fmlookup (contrib_dict t12) v))"
    proof (cases "v = ?u")
      case True
      then have "fmlookup (contrib_dict t2) v
            = Some (ContribData_consider (ContribData_consider ?c0 a1) a2)"
        and "fmlookup (contrib_dict t12) v = Some (ContribData_consider ?c0 ?a12)"
        by (simp_all add: cd2 cd12)
      with fl show ?thesis by simp
    next
      case False
      then show ?thesis by (simp add: cd2 cd12)
    qed
  qed
  have le: "count (sum_contribs t2) p \<le> count (sum_contribs self) p + 1"
    by (rule count_sum_contribs_fmupd_le) (rule cd2)
  from t12 eq le
  show "\<exists>t12. TopicData_consider self ?a12 = Returns t12
                   \<and> count (sum_contribs t2) p = count (sum_contribs t12) p
                   \<and> count (sum_contribs t2) p \<le> count (sum_contribs self) p + 1"
    by blast
qed

theorem sum_contribs_counts_contributors_witness:
  "\<exists>t1 t2 t12.
      TopicData_consider TopicData_init (example_anno 0 4 ''abcd'' ''A'') = Returns t1
    \<and> TopicData_consider t1 (example_anno 2 6 ''cdef'' ''A'') = Returns t2
    \<and> TopicData_consider TopicData_init
         ((example_anno 0 4 ''abcd'' ''A'')\<lparr>anno.start_pos := 0, anno.end_pos := 6\<rparr>) = Returns t12
    \<and> count (sum_contribs t2) 3 = count (sum_contribs t12) 3
    \<and> count (sum_contribs t2) 3 \<le> 1"
proof -
  let ?a1 = "example_anno 0 4 ''abcd'' ''A''"
  let ?a2 = "example_anno 2 6 ''cdef'' ''A''"
  have "\<exists>t. TopicData_consider TopicData_init ?a1 = Returns t"
    by (simp add: TopicData_consider_Returns_iff TopicData_init_def)
  then obtain t1 where r1: "TopicData_consider TopicData_init ?a1 = Returns t1" ..
  from TopicData_consider_Returns_fields [OF r1]
  have "\<exists>t. TopicData_consider t1 ?a2 = Returns t"
    by (simp add: TopicData_consider_Returns_iff example_anno_def)
  then obtain t2 where r2: "TopicData_consider t1 ?a2 = Returns t2" ..
  have pre: "contributor_uuid ?a1 = contributor_uuid ?a2
         \<and> max (anno.start_pos ?a1) (anno.start_pos ?a2) < min (anno.end_pos ?a1) (anno.end_pos ?a2)
         \<and> TopicData_consider TopicData_init ?a1 = Returns t1
         \<and> TopicData_consider t1 ?a2 = Returns t2"
    using r1 r2 by (simp add: example_anno_def)
  have zero: "count (sum_contribs TopicData_init) 3 = 0"
    by code_simp
  have mm: "min (anno.start_pos ?a1) (anno.start_pos ?a2) = 0"
    "max (anno.end_pos ?a1) (anno.end_pos ?a2) = 6"
    by (simp_all add: example_anno_def)
  from sum_contribs_counts_contributors [where self = TopicData_init and p = 3,
      THEN conjunct2, THEN conjunct2, rule_format, OF pre]
  obtain t12 where "TopicData_consider TopicData_init
         (?a1\<lparr>anno.start_pos := 0, anno.end_pos := 6\<rparr>) = Returns t12"
    and "count (sum_contribs t2) 3 = count (sum_contribs t12) 3"
    and "count (sum_contribs t2) 3 \<le> count (sum_contribs TopicData_init) 3 + 1"
    unfolding mm by blast
  with r1 r2 zero show ?thesis by auto
qed

subsection \<open>\<^verbatim>\<open>TopicData.convert_to_ranges\<close>\<close>

lemma fold_convert_step:
  assumes "pre \<noteq> []" "e = last pre + 1"
  shows "(case fold (convert_step (pre @ suf)) (enumerate (length pre) suf) (acc, s, e) of
            (offsets, start, end) \<Rightarrow>
               offsets @ [\<lparr>offset.start_pos = start, offset.end_pos = end\<rparr>])
         = acc @ runs s e suf"
  using assms
proof (induction suf arbitrary: pre acc s e)
  case Nil
  then show ?case by simp
next
  case (Cons p suf)
  have nth: "(pre @ p # suf) ! (length pre - Suc 0) = last pre"
    using Cons.prems(1) by (simp add: nth_append last_conv_nth)
  have step: "convert_step (pre @ p # suf) (length pre, p) (acc, s, e) =
      (if e \<noteq> p then (acc @ [\<lparr>offset.start_pos = s, offset.end_pos = e\<rparr>], p, p + 1)
       else (acc, s, p + 1))"
    using Cons.prems by (simp add: convert_step_def nth)
  have IH: "(case fold (convert_step ((pre @ [p]) @ suf)) (enumerate (length (pre @ [p])) suf)
                 (acc', s', p + 1) of
            (offsets, start, end) \<Rightarrow>
               offsets @ [\<lparr>offset.start_pos = start, offset.end_pos = end\<rparr>])
         = acc' @ runs s' (p + 1) suf" for acc' s'
    by (rule Cons.IH) simp_all
  show ?case
    using IH [of "acc @ [\<lparr>offset.start_pos = s, offset.end_pos = e\<rparr>]" p] IH [of acc s]
    by (simp add: step)
qed

lemma convert_to_ranges_runs:
  "convert_to_ranges positions =
     (case sort positions of [] \<Rightarrow> [] | x # rest \<Rightarrow> runs x (x + 1) rest)"
proof (cases "sort positions")
  case Nil
  then have "positions = []" by (metis length_sort length_0_conv)
  then show ?thesis by (simp add: convert_to_ranges_def)
next
  case (Cons x rest)
  then have ne: "length positions \<noteq> 0" by (metis length_sort length_0_conv list.distinct(1))
  have first: "convert_step (x # rest) (0, x) ([], x, x + 1) = ([], x, x + 1)"
    by (simp add: convert_step_def)
  from fold_convert_step [of "[x]" "x + 1" rest "[]" x]
  have "(case fold (convert_step (x # rest)) (enumerate (Suc 0) rest) ([], x, x + 1) of
            (offsets, start, end) \<Rightarrow>
               offsets @ [\<lparr>offset.start_pos = start, offset.end_pos = end\<rparr>])
         = runs x (x + 1) rest"
    by simp
  with ne Cons first show ?thesis
    by (simp add: convert_to_ranges_def Let_def)
qed

lemma runs_covers:
  assumes "sorted_wrt (<) ps" "\<forall>p \<in> set ps. e \<le> p" "s < e"
  shows "(\<exists>r \<in> set (runs s e ps). covers r q) \<longleftrightarrow> (s \<le> q \<and> q < e) \<or> q \<in> set ps"
  using assms
proof (induction s e ps rule: runs.induct)
  case (1 s e)
  then show ?case by simp
next
  case (2 s e p ps)
  show ?case
  proof (cases "e = p")
    case True
    with 2 have "(\<exists>r \<in> set (runs s (p + 1) ps). covers r q)
        \<longleftrightarrow> (s \<le> q \<and> q < p + 1) \<or> q \<in> set ps"
      by force
    with True 2(5) show ?thesis by auto
  next
    case False
    with 2 have "(\<exists>r \<in> set (runs p (p + 1) ps). covers r q)
        \<longleftrightarrow> (p \<le> q \<and> q < p + 1) \<or> q \<in> set ps"
      by force
    with False show ?thesis by auto
  qed
qed

lemma runs_nonempty:
  assumes "\<forall>p \<in> set ps. e \<le> p" "sorted_wrt (<) ps" "s < e" "r \<in> set (runs s e ps)"
  shows "offset.start_pos r < offset.end_pos r \<and> s \<le> offset.start_pos r"
  using assms
proof (induction s e ps rule: runs.induct)
  case (1 s e)
  then show ?case by simp
next
  case (2 s e p ps)
  show ?case
  proof (cases "e = p")
    case True
    with 2 have "r \<in> set (runs s (p + 1) ps)" by simp
    with True 2 show ?thesis by force
  next
    case False
    show ?thesis
    proof (cases "r = \<lparr>offset.start_pos = s, offset.end_pos = e\<rparr>")
      case True
      with 2 show ?thesis by simp
    next
      case r: False
      with False 2 have "r \<in> set (runs p (p + 1) ps)" by simp
      with False 2 have "offset.start_pos r < offset.end_pos r \<and> p \<le> offset.start_pos r"
        by force
      with 2 show ?thesis by force
    qed
  qed
qed

lemma runs_separated:
  assumes "\<forall>p \<in> set ps. e \<le> p" "sorted_wrt (<) ps" "s < e"
  shows "sorted_wrt (\<lambda>r r'. offset.end_pos r < offset.start_pos r') (runs s e ps)"
  using assms
proof (induction s e ps rule: runs.induct)
  case (1 s e)
  then show ?case by simp
next
  case (2 s e p ps)
  show ?case
  proof (cases "e = p")
    case True
    with 2 show ?thesis by force
  next
    case False
    have later: "\<forall>p' \<in> set ps. p + 1 \<le> p'" using 2 by force
    have "e < offset.start_pos r" if "r \<in> set (runs p (p + 1) ps)" for r
      using runs_nonempty [OF later _ _ that] 2 False by force
    moreover have "sorted_wrt (\<lambda>r r'. offset.end_pos r < offset.start_pos r') (runs p (p + 1) ps)"
      using 2 False later by simp
    ultimately show ?thesis using False by simp
  qed
qed

lemma runs_starts:
  assumes "\<forall>p \<in> set ps. e \<le> p" "sorted_wrt (<) ps" "s < e"
  shows "q \<in> offset.start_pos ` set (runs s e ps)
     \<longleftrightarrow> q = s \<or> (q \<in> set ps \<and> q - 1 \<notin> set ps \<and> q \<noteq> e)"
  using assms
proof (induction s e ps rule: runs.induct)
  case (1 s e)
  then show ?case by simp
next
  case (2 s e p ps)
  have later: "\<forall>p' \<in> set ps. p + 1 \<le> p'" using 2 by force
  show ?case
  proof (cases "e = p")
    case True
    with 2 later have "q \<in> offset.start_pos ` set (runs s (p + 1) ps)
        \<longleftrightarrow> q = s \<or> (q \<in> set ps \<and> q - 1 \<notin> set ps \<and> q \<noteq> p + 1)"
      by simp
    with True 2(5) later show ?thesis by force
  next
    case False
    with 2 later have "q \<in> offset.start_pos ` set (runs p (p + 1) ps)
        \<longleftrightarrow> q = p \<or> (q \<in> set ps \<and> q - 1 \<notin> set ps \<and> q \<noteq> p + 1)"
      by simp
    with False 2(3) later show ?thesis by force
  qed
qed

lemma strict_sorted_sort: "distinct ps \<Longrightarrow> sorted_wrt (<) (sort ps)"
  by (simp add: strict_sorted_iff)

lemma convert_to_ranges_Nil: "convert_to_ranges [] = []"
  by (simp add: convert_to_ranges_def)

lemma convert_to_ranges_covers:
  assumes "distinct ps"
  shows "(\<exists>r \<in> set (convert_to_ranges ps). covers r q) \<longleftrightarrow> q \<in> set ps"
proof (cases "sort ps")
  case Nil
  then have "ps = []" by (metis length_sort length_0_conv)
  then show ?thesis by (simp add: convert_to_ranges_Nil)
next
  case (Cons x rest)
  with strict_sorted_sort [OF assms] have st: "sorted_wrt (<) rest" "\<forall>p \<in> set rest. x + 1 \<le> p"
    by auto
  have set: "set ps = set (x # rest)" using Cons by (metis set_sort)
  have cr: "convert_to_ranges ps = runs x (x + 1) rest"
    using Cons by (simp add: convert_to_ranges_runs)
  have "(\<exists>r \<in> set (runs x (x + 1) rest). covers r q)
      \<longleftrightarrow> (x \<le> q \<and> q < x + 1) \<or> q \<in> set rest"
    by (rule runs_covers [OF st]) simp
  also have "\<dots> \<longleftrightarrow> q \<in> set (x # rest)" by auto
  finally show ?thesis by (simp only: cr set)
qed

lemma convert_to_ranges_nonempty:
  assumes "distinct ps" "r \<in> set (convert_to_ranges ps)"
  shows "offset.start_pos r < offset.end_pos r"
proof (cases "sort ps")
  case Nil
  with assms show ?thesis by (simp add: convert_to_ranges_runs)
next
  case (Cons x rest)
  with strict_sorted_sort [OF assms(1)] have st: "\<forall>p \<in> set rest. x + 1 \<le> p" "sorted_wrt (<) rest"
    by auto
  from assms(2) Cons have "r \<in> set (runs x (x + 1) rest)"
    by (simp add: convert_to_ranges_runs)
  from runs_nonempty [OF st _ this] show ?thesis by simp
qed

lemma convert_to_ranges_separated:
  assumes "distinct ps"
  shows "sorted_wrt (\<lambda>r r'. offset.end_pos r < offset.start_pos r') (convert_to_ranges ps)"
proof (cases "sort ps")
  case Nil
  then show ?thesis by (simp add: convert_to_ranges_runs)
next
  case (Cons x rest)
  with strict_sorted_sort [OF assms(1)] have st: "\<forall>p \<in> set rest. x + 1 \<le> p" "sorted_wrt (<) rest"
    by auto
  from runs_separated [OF st, of x] Cons show ?thesis
    by (simp add: convert_to_ranges_runs)
qed

lemma convert_to_ranges_starts:
  assumes "distinct ps"
  shows "q \<in> offset.start_pos ` set (convert_to_ranges ps) \<longleftrightarrow> q \<in> set ps \<and> q - 1 \<notin> set ps"
proof (cases "sort ps")
  case Nil
  then have "ps = []" by (metis length_sort length_0_conv)
  then show ?thesis by (simp add: convert_to_ranges_Nil)
next
  case (Cons x rest)
  with strict_sorted_sort [OF assms(1)] have st: "\<forall>p \<in> set rest. x + 1 \<le> p" "sorted_wrt (<) rest"
    by auto
  have set: "set ps = set (x # rest)" using Cons by (metis set_sort)
  from runs_starts [OF st, of x q] Cons
  have "q \<in> offset.start_pos ` set (convert_to_ranges ps)
     \<longleftrightarrow> q = x \<or> (q \<in> set rest \<and> q - 1 \<notin> set rest \<and> q \<noteq> x + 1)"
    by (simp add: convert_to_ranges_runs)
  also have "\<dots> \<longleftrightarrow> q \<in> set (x # rest) \<and> q - 1 \<notin> set (x # rest)"
    using st(1) by force
  finally show ?thesis by (simp only: set)
qed

lemma convert_to_ranges_mset:
  "mset ps = mset qs \<Longrightarrow> convert_to_ranges ps = convert_to_ranges qs"
proof -
  assume "mset ps = mset qs"
  then have "sort ps = sort qs" by (simp add: properties_for_sort)
  moreover have "length ps = length qs" using \<open>mset ps = mset qs\<close> by (rule mset_eq_length)
  ultimately show ?thesis by (simp add: convert_to_ranges_def)
qed

lemma convert_to_ranges_set:
  assumes "distinct ps" "distinct qs" "set ps = set qs"
  shows "convert_to_ranges ps = convert_to_ranges qs"
  using assms by (intro convert_to_ranges_mset) (simp add: set_eq_iff_mset_eq_distinct [symmetric])

lemma separated_nth:
  assumes "sorted_wrt (\<lambda>r r'. offset.end_pos r < offset.start_pos r') R" "i < j" "j < length R"
  shows "offset.end_pos (R ! i) < offset.start_pos (R ! j)"
  using assms by (simp add: sorted_wrt_iff_nth_less)

lemma separated_unique:
  assumes "sorted_wrt (\<lambda>r r'. offset.end_pos r < offset.start_pos r') R"
    and "i < length R" "j < length R" "covers (R ! i) p" "covers (R ! j) p"
  shows "i = j"
proof (rule ccontr)
  assume "i \<noteq> j"
  then consider "i < j" | "j < i" by linarith
  then show False
  proof cases
    case 1
    from separated_nth [OF assms(1) 1 assms(3)] assms(4,5) show False by simp
  next
    case 2
    from separated_nth [OF assms(1) 2 assms(2)] assms(4,5) show False by simp
  qed
qed

lemma separated_distinct_expand:
  assumes "sorted_wrt (\<lambda>r r'. offset.end_pos r < offset.start_pos r') R"
  shows "distinct (concat (map (\<lambda>r. py_range (offset.start_pos r) (offset.end_pos r)) R))"
  using assms
proof (induction R)
  case Nil
  then show ?case by simp
next
  case (Cons r R)
  from Cons.prems have later: "\<forall>r' \<in> set R. offset.end_pos r < offset.start_pos r'"
    and rest: "sorted_wrt (\<lambda>r r'. offset.end_pos r < offset.start_pos r') R"
    by simp_all
  let ?f = "\<lambda>r. py_range (offset.start_pos r) (offset.end_pos r)"
  have d1: "distinct (?f r)" by (simp add: py_range_def)
  have d2: "distinct (concat (map ?f R))" by (rule Cons.IH [OF rest])
  have "set (?f r) \<inter> set (concat (map ?f R)) = {}"
  proof (rule ccontr)
    assume "set (?f r) \<inter> set (concat (map ?f R)) \<noteq> {}"
    then obtain p where p: "p \<in> set (?f r)" "p \<in> set (concat (map ?f R))" by blast
    from p(2) obtain r' where r': "r' \<in> set R" "p \<in> set (?f r')" by auto
    from p(1) have "p < offset.end_pos r" by (simp add: mem_py_range)
    moreover from r'(2) have "offset.start_pos r' \<le> p" by (simp add: mem_py_range)
    moreover from later r'(1) have "offset.end_pos r < offset.start_pos r'" by blast
    ultimately show False by simp
  qed
  with d1 d2 show ?case by simp
qed

lemma set_expand:
  "set (concat (map (\<lambda>r. py_range (offset.start_pos r) (offset.end_pos r)) R))
     = {p. \<exists>r \<in> set R. covers r p}"
  by (auto simp: mem_py_range)

lemma convert_to_ranges_idem:
  assumes "distinct ps"
  shows "convert_to_ranges
           (concat (map (\<lambda>r. py_range (offset.start_pos r) (offset.end_pos r))
                      (convert_to_ranges ps)))
         = convert_to_ranges ps"
proof (rule convert_to_ranges_set)
  show "distinct (concat (map (\<lambda>r. py_range (offset.start_pos r) (offset.end_pos r))
                      (convert_to_ranges ps)))"
    by (rule separated_distinct_expand) (rule convert_to_ranges_separated [OF assms])
  show "distinct ps" by (rule assms)
  show "set (concat (map (\<lambda>r. py_range (offset.start_pos r) (offset.end_pos r))
                      (convert_to_ranges ps))) = set ps"
    unfolding set_expand using convert_to_ranges_covers [OF assms] by blast
qed

lemma strict_sorted_pred:
  assumes "sorted_wrt (<) (xs :: int list)" "i < length xs"
  shows "xs ! i - 1 \<in> set xs \<longleftrightarrow> 0 < i \<and> xs ! (i - 1) + 1 = xs ! i"
proof
  assume "0 < i \<and> xs ! (i - 1) + 1 = xs ! i"
  then have "xs ! i - 1 = xs ! (i - 1)" by simp
  with assms(2) show "xs ! i - 1 \<in> set xs" by (metis less_imp_diff_less nth_mem)
next
  assume "xs ! i - 1 \<in> set xs"
  then obtain j where j: "j < length xs" "xs ! j = xs ! i - 1" by (auto simp: in_set_conv_nth)
  have mono: "xs ! a < xs ! b" if "a < b" "b < length xs" for a b
    using assms(1) that by (simp add: sorted_wrt_iff_nth_less)
  have "j < i"
  proof (rule ccontr)
    assume "\<not> j < i"
    then have "j = i \<or> i < j" by linarith
    then show False using j mono [of i j] by auto
  qed
  then have pos: "0 < i" by simp
  have "xs ! (i - 1) = xs ! j"
  proof (cases "j = i - 1")
    case True
    then show ?thesis by simp
  next
    case False
    with \<open>j < i\<close> have "j < i - 1" by simp
    from mono [OF this] assms(2) have "xs ! j < xs ! (i - 1)" by simp
    moreover from mono [of "i - 1" i] pos assms(2) have "xs ! (i - 1) < xs ! i" by simp
    ultimately show ?thesis using j by simp
  qed
  with j pos show "0 < i \<and> xs ! (i - 1) + 1 = xs ! i" by simp
qed

lemma convert_to_ranges_end_outside:
  assumes "distinct ps" "r \<in> set (convert_to_ranges ps)"
  shows "offset.end_pos r \<notin> set ps"
proof
  let ?R = "convert_to_ranges ps"
  assume "offset.end_pos r \<in> set ps"
  then obtain r' where r': "r' \<in> set ?R" "covers r' (offset.end_pos r)"
    using convert_to_ranges_covers [OF assms(1)] by blast
  from assms(2) obtain i where i: "i < length ?R" "?R ! i = r" by (auto simp: in_set_conv_nth)
  from r'(1) obtain j where j: "j < length ?R" "?R ! j = r'" by (auto simp: in_set_conv_nth)
  note sep = convert_to_ranges_separated [OF assms(1)]
  have ne: "offset.start_pos r < offset.end_pos r"
    by (rule convert_to_ranges_nonempty [OF assms])
  consider "i = j" | "i < j" | "j < i" by linarith
  then show False
  proof cases
    case 1
    with i j r'(2) show False by simp
  next
    case 2
    from separated_nth [OF sep 2 j(1)] i j r'(2) show False by simp
  next
    case 3
    from separated_nth [OF sep 3 i(1)] i j r'(2) ne show False by simp
  qed
qed

text \<open>
  Claim C2. On a list of pairwise different positions \<^verbatim>\<open>convert_to_ranges\<close> returns the
  maximal contiguous runs of the set of positions as half-open ranges: every range is
  non-empty and covers members of the set only; every member is covered by exactly one
  range; no range can be extended at either end; a range starts at a sorted position exactly
  when that position is the first one or is not one greater than the position before it; the
  result does not depend on the order in which the positions are listed; and the empty list
  yields no range.
\<close>

theorem convert_to_ranges_maximal_runs:
  assumes "distinct positions"
  shows
  "(\<forall>r \<in> set (convert_to_ranges positions).
       offset.start_pos r < offset.end_pos r \<and> (\<forall>p. covers r p \<longrightarrow> p \<in> set positions))
   \<and> (\<forall>p \<in> set positions.
         \<exists>!i. i < length (convert_to_ranges positions) \<and> covers (convert_to_ranges positions ! i) p)
   \<and> (\<forall>r \<in> set (convert_to_ranges positions).
         offset.start_pos r - 1 \<notin> set positions \<and> offset.end_pos r \<notin> set positions)
   \<and> (\<forall>i < length (sort positions).
         sort positions ! i \<in> offset.start_pos ` set (convert_to_ranges positions)
           \<longleftrightarrow> i = 0 \<or> sort positions ! (i - 1) + 1 \<noteq> sort positions ! i)
   \<and> (\<forall>qs. distinct qs \<and> set qs = set positions \<longrightarrow>
          convert_to_ranges qs = convert_to_ranges positions)
   \<and> convert_to_ranges [] = []"
proof (intro conjI ballI allI impI)
  fix r assume r: "r \<in> set (convert_to_ranges positions)"
  show "offset.start_pos r < offset.end_pos r"
    by (rule convert_to_ranges_nonempty [OF assms r])
  show "offset.start_pos r - 1 \<notin> set positions"
    using convert_to_ranges_starts [OF assms, of "offset.start_pos r"] r by blast
  show "offset.end_pos r \<notin> set positions"
    by (rule convert_to_ranges_end_outside [OF assms r])
  fix p assume "covers r p"
  with r show "p \<in> set positions"
    using convert_to_ranges_covers [OF assms, of p] by blast
next
  fix p assume "p \<in> set positions"
  then obtain r where r: "r \<in> set (convert_to_ranges positions)" "covers r p"
    using convert_to_ranges_covers [OF assms, of p] by blast
  then obtain i where i: "i < length (convert_to_ranges positions)"
    "convert_to_ranges positions ! i = r" by (auto simp: in_set_conv_nth)
  show "\<exists>!i. i < length (convert_to_ranges positions) \<and> covers (convert_to_ranges positions ! i) p"
  proof (rule ex1I [of _ i])
    from i r show "i < length (convert_to_ranges positions)
        \<and> covers (convert_to_ranges positions ! i) p" by simp
  next
    fix j assume "j < length (convert_to_ranges positions)
        \<and> covers (convert_to_ranges positions ! j) p"
    with i r show "j = i"
      using separated_unique [OF convert_to_ranges_separated [OF assms], of j i p] by simp
  qed
next
  fix i assume i: "i < length (sort positions)"
  let ?xs = "sort positions"
  have st: "sorted_wrt (<) ?xs" by (rule strict_sorted_sort [OF assms])
  have mem: "?xs ! i \<in> set positions" using i by (metis nth_mem set_sort)
  have "?xs ! i \<in> offset.start_pos ` set (convert_to_ranges positions)
      \<longleftrightarrow> ?xs ! i - 1 \<notin> set ?xs"
    using convert_to_ranges_starts [OF assms, of "?xs ! i"] mem by simp
  also have "\<dots> \<longleftrightarrow> \<not> (0 < i \<and> ?xs ! (i - 1) + 1 = ?xs ! i)"
    by (simp only: strict_sorted_pred [OF st i])
  also have "\<dots> \<longleftrightarrow> i = 0 \<or> ?xs ! (i - 1) + 1 \<noteq> ?xs ! i" by auto
  finally show "?xs ! i \<in> offset.start_pos ` set (convert_to_ranges positions)
           \<longleftrightarrow> i = 0 \<or> ?xs ! (i - 1) + 1 \<noteq> ?xs ! i" .
next
  fix qs assume "distinct qs \<and> set qs = set positions"
  with assms show "convert_to_ranges qs = convert_to_ranges positions"
    by (intro convert_to_ranges_set) simp_all
next
  show "convert_to_ranges [] = []" by (rule convert_to_ranges_Nil)
qed

theorem convert_to_ranges_maximal_runs_witness:
  "convert_to_ranges [5, 1, 2, 9, 3, 10]
     = [\<lparr>offset.start_pos = 1, offset.end_pos = 4\<rparr>, \<lparr>offset.start_pos = 5, offset.end_pos = 6\<rparr>,
        \<lparr>offset.start_pos = 9, offset.end_pos = 11\<rparr>]
   \<and> convert_to_ranges [10, 9, 5, 3, 2, 1] = convert_to_ranges [5, 1, 2, 9, 3, 10]"
proof -
  have d: "distinct [5, 1, 2, 9, 3, 10 :: int]" by simp
  note cr = convert_to_ranges_maximal_runs [OF d]
  have "convert_to_ranges [5, 1, 2, 9, 3, 10]
     = [\<lparr>offset.start_pos = 1, offset.end_pos = 4\<rparr>, \<lparr>offset.start_pos = 5, offset.end_pos = 6\<rparr>,
        \<lparr>offset.start_pos = 9, offset.end_pos = 11\<rparr>]"
    by code_simp
  moreover have "distinct [10, 9, 5, 3, 2, 1 :: int]
      \<and> set [10, 9, 5, 3, 2, 1 :: int] = set [5, 1, 2, 9, 3, 10]"
    by auto
  from cr [THEN conjunct2, THEN conjunct2, THEN conjunct2, THEN conjunct2, THEN conjunct1,
      rule_format, OF this]
  have "convert_to_ranges [10, 9, 5, 3, 2, 1] = convert_to_ranges [5, 1, 2, 9, 3, 10]" .
  ultimately show ?thesis by (rule conjI)
qed

subsection \<open>\<^verbatim>\<open>TopicData.get_consensus\<close> and the pass threshold\<close>

lemma fmdom_py_dict: "fset (fmdom (py_dict kvs)) = fst ` set kvs"
  by (simp add: py_dict_def fmdom_fmap_of_list fset_of_list.rep_eq)

lemma dict_keys_eq: "dict_keys d = sorted_list_of_fset (fmdom d)"
  by (simp add: dict_keys_def iteritems_def sorted_list_of_fmap_def comp_def)

lemma distinct_passing_indices: "distinct (passing_indices self pred)"
  by (simp add: passing_indices_def dict_keys_eq Let_def)

lemma set_passing_indices:
  "set (passing_indices self pred)
     = {k. k \<in># sum_contribs self \<and> pred (k, count (sum_contribs self) k)}"
proof -
  let ?c = "sum_contribs self"
  have "set (passing_indices self pred)
      = fst ` {x \<in> (\<lambda>k. (k, count ?c k)) ` set_mset ?c. pred x}"
    by (simp add: passing_indices_def dict_keys_eq Let_def fmdom_py_dict Counter_iteritems_def)
  also have "\<dots> = {k. k \<in># ?c \<and> pred (k, count ?c k)}"
    by force
  finally show ?thesis .
qed

lemma set_passing_indices_threshold:
  "set (passing_indices self (determine_passing t))
     = {k. k \<in># sum_contribs self \<and> t \<le> int (count (sum_contribs self) k)}"
  by (simp add: set_passing_indices determine_passing_def)

lemma get_consensus_covers:
  "(\<exists>r \<in> set (TopicData_get_consensus self pred). covers r p)
     \<longleftrightarrow> p \<in> set (passing_indices self pred)"
  unfolding TopicData_get_consensus_def Let_def
  by (rule convert_to_ranges_covers [OF distinct_passing_indices])

lemma example_items:
  "topics_iteritems py2_slot_order example_processor = [(''T'', example_topic)]"
  by code_simp

lemma example_topic_rows: "get_consensus_loop ascii_enc example_processor [(''T'', example_topic)] [] =
  Inr [\<lparr>offset.start_pos = 2, offset.end_pos = 4, text_offset.target_text = ''cd'',
         case_row.topic_name = ''T'', case_row.namespace = ''ns'', case_row.case_number = 1,
         row.article_sha256 = Some ''sha'', row.article_filename = Some ''file'',
         row.task_uuid = ''task''\<rparr>,
       \<lparr>offset.start_pos = 8, offset.end_pos = 10, text_offset.target_text = ''ij'',
         case_row.topic_name = ''T'', case_row.namespace = ''ns'', case_row.case_number = 2,
         row.article_sha256 = Some ''sha'', row.article_filename = Some ''file'',
         row.task_uuid = ''task''\<rparr>]"
  by code_simp

lemma example_passing_2: "passing_indices example_topic (determine_passing 2) = [2, 3, 8, 9]"
  by code_simp

lemma example_passing_3: "passing_indices example_topic (determine_passing 3) = []"
  by code_simp

text \<open>
  Claim C5. For one and the same topic state, the positions that pass the predicate
  \<open>count \<ge> t2\<close> are among those that pass \<open>count \<ge> t1\<close> whenever \<open>t1 \<le> t2\<close>; the
  passing positions are the counted positions whose count reaches the threshold; and the
  positions covered by the consensus ranges shrink in the same way.
\<close>

theorem threshold_monotone:
  assumes "t1 \<le> t2"
  shows "set (passing_indices topic (determine_passing t2))
           \<subseteq> set (passing_indices topic (determine_passing t1))
       \<and> set (passing_indices topic (determine_passing t2))
           = {k. k \<in># sum_contribs topic \<and> t2 \<le> int (count (sum_contribs topic) k)}
       \<and> {p. \<exists>r \<in> set (TopicData_get_consensus topic (determine_passing t2)). covers r p}
           \<subseteq> {p. \<exists>r \<in> set (TopicData_get_consensus topic (determine_passing t1)). covers r p}"
proof -
  have sub: "set (passing_indices topic (determine_passing t2))
           \<subseteq> set (passing_indices topic (determine_passing t1))"
    using assms by (auto simp: set_passing_indices_threshold)
  have cov: "{p. \<exists>r \<in> set (TopicData_get_consensus topic (determine_passing t2)). covers r p}
           \<subseteq> {p. \<exists>r \<in> set (TopicData_get_consensus topic (determine_passing t1)). covers r p}"
    using sub by (simp only: get_consensus_covers) blast
  note eq = set_passing_indices_threshold [of topic t2]
  from sub eq cov show ?thesis by (intro conjI)
qed

theorem threshold_monotone_witness:
  "set (passing_indices example_topic (determine_passing 3))
      \<subseteq> set (passing_indices example_topic (determine_passing 2))
   \<and> passing_indices example_topic (determine_passing 2) = [2, 3, 8, 9]
   \<and> passing_indices example_topic (determine_passing 3) = []"
proof -
  have le: "(2::int) \<le> 3" by simp
  from threshold_monotone [OF le, of example_topic, THEN conjunct1] example_passing_2 example_passing_3
  show ?thesis by (intro conjI)
qed

subsection \<open>The rows of one topic\<close>

lemma set_text_Inr:
  "set_text enc self offsets = Inr toffs \<Longrightarrow>
     map (\<lambda>r. \<lparr>offset.start_pos = offset.start_pos r, offset.end_pos = offset.end_pos r\<rparr>) toffs
       = offsets"
proof (induction offsets arbitrary: toffs)
  case Nil
  then show ?case by simp
next
  case (Cons x offsets)
  then show ?case
    by (auto simp: Let_def split: sum.splits)
qed

lemma length_determine_cases [simp]: "length (determine_cases t offs) = length offs"
  by (simp add: determine_cases_def)

lemma nth_determine_cases:
  assumes "i < length offs"
  shows "determine_cases t offs ! i =
     \<lparr>offset.start_pos = offset.start_pos (offs ! i), offset.end_pos = offset.end_pos (offs ! i),
      text_offset.target_text = text_offset.target_text (offs ! i),
      case_row.topic_name = TopicData.topic_name t,
      case_row.namespace = TopicData.namespace t,
      case_row.case_number = int i + 1\<rparr>"
  using assms by (simp add: determine_cases_def nth_enumerate_eq)

lemma length_set_links [simp]: "length (set_links self rows) = length rows"
  by (simp add: set_links_def)

lemma nth_set_links:
  assumes "i < length rows"
  shows "offset.start_pos (set_links self rows ! i) = offset.start_pos (rows ! i)"
    and "offset.end_pos (set_links self rows ! i) = offset.end_pos (rows ! i)"
    and "text_offset.target_text (set_links self rows ! i) = text_offset.target_text (rows ! i)"
    and "case_row.topic_name (set_links self rows ! i) = case_row.topic_name (rows ! i)"
    and "case_row.namespace (set_links self rows ! i) = case_row.namespace (rows ! i)"
    and "case_row.case_number (set_links self rows ! i) = case_row.case_number (rows ! i)"
    and "row.article_sha256 (set_links self rows ! i) = ArticleData.article_sha256 (article_data self)"
    and "row.article_filename (set_links self rows ! i) = ArticleData.article_filename (article_data self)"
    and "row.task_uuid (set_links self rows ! i) = ConsensusProcessor.task_uuid self"
  using assms by (simp_all add: set_links_def)

lemma get_consensus_loop_single:
  "get_consensus_loop enc self [(name, topic_data)] [] =
     (case set_text enc self
             (TopicData_get_consensus topic_data
                (determine_passing (dict_get (iaa_config self) ''pass_threshold'' PASS_THRESHOLD))) of
        Inl e \<Rightarrow> Inl e
      | Inr offs \<Rightarrow> Inr (set_links self (determine_cases topic_data offs)))"
  by (simp add: Let_def split: sum.splits)

lemma get_consensus_loop_acc:
  "get_consensus_loop enc self items acc =
     (case get_consensus_loop enc self items [] of Inl e \<Rightarrow> Inl e | Inr rows \<Rightarrow> Inr (acc @ rows))"
proof (induction items arbitrary: acc)
  case Nil
  then show ?case by simp
next
  case (Cons item items)
  obtain name topic_data where item: "item = (name, topic_data)" by (cases item)
  show ?case
  proof (cases "set_text enc self
             (TopicData_get_consensus topic_data
                (determine_passing (dict_get (iaa_config self) ''pass_threshold'' PASS_THRESHOLD)))")
    case (Inl e)
    then show ?thesis by (simp add: item Let_def)
  next
    case (Inr offs)
    let ?rows = "set_links self (determine_cases topic_data offs)"
    from Inr have "get_consensus_loop enc self (item # items) acc
        = get_consensus_loop enc self items (acc @ ?rows)"
      by (simp add: item Let_def)
    also have "\<dots> = (case get_consensus_loop enc self items [] of
                       Inl e \<Rightarrow> Inl e | Inr rows \<Rightarrow> Inr ((acc @ ?rows) @ rows))"
      by (rule Cons.IH)
    finally have lhs: "get_consensus_loop enc self (item # items) acc
        = (case get_consensus_loop enc self items [] of
                       Inl e \<Rightarrow> Inl e | Inr rows \<Rightarrow> Inr (acc @ ?rows @ rows))"
      by (simp split: sum.splits)
    from Inr have "get_consensus_loop enc self (item # items) []
        = get_consensus_loop enc self items ([] @ ?rows)"
      by (simp add: item Let_def)
    also have "\<dots> = (case get_consensus_loop enc self items [] of
                       Inl e \<Rightarrow> Inl e | Inr rows \<Rightarrow> Inr (([] @ ?rows) @ rows))"
      by (rule Cons.IH)
    finally have rhs: "get_consensus_loop enc self (item # items) []
        = (case get_consensus_loop enc self items [] of
                       Inl e \<Rightarrow> Inl e | Inr rows \<Rightarrow> Inr (?rows @ rows))"
      by (simp split: sum.splits)
    show ?thesis by (simp add: lhs rhs split: sum.splits)
  qed
qed

lemma get_consensus_loop_Cons:
  "get_consensus_loop enc self (item # items) [] =
     (case get_consensus_loop enc self [item] [] of
        Inl e \<Rightarrow> Inl e
      | Inr rows \<Rightarrow>
          (case get_consensus_loop enc self items [] of
             Inl e \<Rightarrow> Inl e
           | Inr rest \<Rightarrow> Inr (rows @ rest)))"
proof -
  obtain name topic_data where item: "item = (name, topic_data)" by (cases item)
  show ?thesis
  proof (cases "set_text enc self
             (TopicData_get_consensus topic_data
                (determine_passing (dict_get (iaa_config self) ''pass_threshold'' PASS_THRESHOLD)))")
    case (Inl e)
    then show ?thesis by (simp add: item Let_def)
  next
    case (Inr offs)
    let ?rows = "set_links self (determine_cases topic_data offs)"
    from Inr have "get_consensus_loop enc self (item # items) []
        = get_consensus_loop enc self items ?rows"
      by (simp add: item Let_def)
    also have "\<dots> = (case get_consensus_loop enc self items [] of
                       Inl e \<Rightarrow> Inl e | Inr rest \<Rightarrow> Inr (?rows @ rest))"
      by (rule get_consensus_loop_acc)
    finally show ?thesis using Inr by (simp add: item Let_def)
  qed
qed

lemma rows_truncate:
  assumes "get_consensus_loop enc self [(name, topic_data)] [] = Inr rows"
  shows "map (\<lambda>r. \<lparr>offset.start_pos = offset.start_pos r, offset.end_pos = offset.end_pos r\<rparr>) rows
     = TopicData_get_consensus topic_data
         (determine_passing (dict_get (iaa_config self) ''pass_threshold'' PASS_THRESHOLD))
   \<and> map case_row.case_number rows = map int [1..<Suc (length rows)]"
proof -
  let ?R = "TopicData_get_consensus topic_data
         (determine_passing (dict_get (iaa_config self) ''pass_threshold'' PASS_THRESHOLD))"
  from assms obtain offs where offs: "set_text enc self ?R = Inr offs"
    and rows: "rows = set_links self (determine_cases topic_data offs)"
    by (auto simp: get_consensus_loop_single split: sum.splits)
  have len: "length rows = length offs" by (simp add: rows)
  have "map (\<lambda>r. \<lparr>offset.start_pos = offset.start_pos r, offset.end_pos = offset.end_pos r\<rparr>) rows
      = map (\<lambda>r. \<lparr>offset.start_pos = offset.start_pos r, offset.end_pos = offset.end_pos r\<rparr>) offs"
  proof (rule nth_equalityI)
    show "length (map (\<lambda>r. \<lparr>offset.start_pos = offset.start_pos r,
        offset.end_pos = offset.end_pos r\<rparr>) rows)
      = length (map (\<lambda>r. \<lparr>offset.start_pos = offset.start_pos r,
        offset.end_pos = offset.end_pos r\<rparr>) offs)"
      by (simp add: len)
  next
    fix i assume "i < length (map (\<lambda>r. \<lparr>offset.start_pos = offset.start_pos r,
        offset.end_pos = offset.end_pos r\<rparr>) rows)"
    then have i: "i < length offs" by (simp add: len)
    then show "map (\<lambda>r. \<lparr>offset.start_pos = offset.start_pos r,
        offset.end_pos = offset.end_pos r\<rparr>) rows ! i
      = map (\<lambda>r. \<lparr>offset.start_pos = offset.start_pos r,
        offset.end_pos = offset.end_pos r\<rparr>) offs ! i"
      by (simp add: len) (simp add: rows nth_set_links nth_determine_cases)
  qed
  with set_text_Inr [OF offs] have one: "map (\<lambda>r. \<lparr>offset.start_pos = offset.start_pos r,
      offset.end_pos = offset.end_pos r\<rparr>) rows = ?R" by simp
  have two: "map case_row.case_number rows = map int [1..<Suc (length rows)]"
  proof (rule nth_equalityI)
    show "length (map case_row.case_number rows) = length (map int [1..<Suc (length rows)])"
      by (simp del: upt_Suc)
  next
    fix i assume "i < length (map case_row.case_number rows)"
    then have i: "i < length offs" by (simp add: len)
    then show "map case_row.case_number rows ! i = map int [1..<Suc (length rows)] ! i"
      by (simp add: len nth_upt del: upt_Suc) (simp add: rows nth_set_links nth_determine_cases)
  qed
  from one two show ?thesis by (rule conjI)
qed

lemma get_answer_consensus_loop_single:
  "get_answer_consensus_loop enc self [(name, topic_data)] [] =
     (let pass_threshold = dict_get (iaa_config self) ''pass_threshold'' PASS_THRESHOLD;
          offsets = TopicData_get_consensus topic_data (determine_passing pass_threshold);
          contrib_count = get_contrib_count topic_data
      in case set_text enc self
                (if length offsets = 0 \<and> contrib_count \<ge> pass_threshold
                 then [\<lparr>offset.start_pos = 0, offset.end_pos = 0\<rparr>] else offsets) of
           Inl e \<Rightarrow> Inl e
         | Inr offs \<Rightarrow>
             Inr (map (\<lambda>r. row.extend r (answer_row.fields contrib_count))
                    (set_links self (determine_cases topic_data offs))))"
  by (simp add: Let_def split: sum.splits)

lemma get_answer_consensus_loop_acc:
  "get_answer_consensus_loop enc self items acc =
     (case get_answer_consensus_loop enc self items [] of
        Inl e \<Rightarrow> Inl e | Inr rows \<Rightarrow> Inr (acc @ rows))"
proof (induction items arbitrary: acc)
  case Nil
  then show ?case by simp
next
  case (Cons item items)
  obtain name topic_data where item: "item = (name, topic_data)" by (cases item)
  let ?thr = "dict_get (iaa_config self) ''pass_threshold'' PASS_THRESHOLD"
  let ?R = "TopicData_get_consensus topic_data (determine_passing ?thr)"
  let ?n = "get_contrib_count topic_data"
  let ?offs = "if length ?R = 0 \<and> ?n \<ge> ?thr
                 then [\<lparr>offset.start_pos = 0, offset.end_pos = 0\<rparr>] else ?R"
  show ?case
  proof (cases "set_text enc self ?offs")
    case (Inl e)
    then show ?thesis by (simp add: item Let_def)
  next
    case (Inr offs)
    let ?rows = "map (\<lambda>r. row.extend r (answer_row.fields ?n))
                    (set_links self (determine_cases topic_data offs))"
    have step: "get_answer_consensus_loop enc self (item # items) acc'
        = get_answer_consensus_loop enc self items (acc' @ ?rows)" for acc'
      using Inr by (simp add: item Let_def)
    have "get_answer_consensus_loop enc self (item # items) acc
        = (case get_answer_consensus_loop enc self items [] of
                       Inl e \<Rightarrow> Inl e | Inr rows \<Rightarrow> Inr ((acc @ ?rows) @ rows))"
      by (simp only: step) (rule Cons.IH)
    moreover have "get_answer_consensus_loop enc self (item # items) []
        = (case get_answer_consensus_loop enc self items [] of
                       Inl e \<Rightarrow> Inl e | Inr rows \<Rightarrow> Inr (([] @ ?rows) @ rows))"
      by (simp only: step) (rule Cons.IH)
    ultimately show ?thesis by (simp split: sum.splits)
  qed
qed

lemma get_answer_consensus_loop_Cons:
  "get_answer_consensus_loop enc self (item # items) [] =
     (case get_answer_consensus_loop enc self [item] [] of
        Inl e \<Rightarrow> Inl e
      | Inr rows \<Rightarrow>
          (case get_answer_consensus_loop enc self items [] of
             Inl e \<Rightarrow> Inl e
           | Inr rest \<Rightarrow> Inr (rows @ rest)))"
proof -
  obtain name topic_data where item: "item = (name, topic_data)" by (cases item)
  let ?thr = "dict_get (iaa_config self) ''pass_threshold'' PASS_THRESHOLD"
  let ?R = "TopicData_get_consensus topic_data (determine_passing ?thr)"
  let ?n = "get_contrib_count topic_data"
  let ?offs = "if length ?R = 0 \<and> ?n \<ge> ?thr
                 then [\<lparr>offset.start_pos = 0, offset.end_pos = 0\<rparr>] else ?R"
  show ?thesis
  proof (cases "set_text enc self ?offs")
    case (Inl e)
    then show ?thesis by (simp add: item Let_def)
  next
    case (Inr offs)
    let ?rows = "map (\<lambda>r. row.extend r (answer_row.fields ?n))
                    (set_links self (determine_cases topic_data offs))"
    from Inr have "get_answer_consensus_loop enc self (item # items) []
        = get_answer_consensus_loop enc self items ?rows"
      by (simp add: item Let_def)
    also have "\<dots> = (case get_answer_consensus_loop enc self items [] of
                       Inl e \<Rightarrow> Inl e | Inr rest \<Rightarrow> Inr (?rows @ rest))"
      by (rule get_answer_consensus_loop_acc)
    finally show ?thesis using Inr by (simp add: item Let_def)
  qed
qed

lemma rows_of_offsets:
  assumes "set_text enc self offsets = Inr offs"
    and "rows = map f (set_links self (determine_cases topic_data offs))"
    and "\<And>r. offset.start_pos (f r) = offset.start_pos r"
    and "\<And>r. offset.end_pos (f r) = offset.end_pos r"
    and "\<And>r. case_row.case_number (f r) = case_row.case_number r"
  shows "map (\<lambda>r. \<lparr>offset.start_pos = offset.start_pos r, offset.end_pos = offset.end_pos r\<rparr>) rows
            = offsets
         \<and> map case_row.case_number rows = map int [1..<Suc (length rows)]"
proof -
  have len: "length rows = length offs" by (simp add: assms(2))
  have "map (\<lambda>r. \<lparr>offset.start_pos = offset.start_pos r, offset.end_pos = offset.end_pos r\<rparr>) rows
      = map (\<lambda>r. \<lparr>offset.start_pos = offset.start_pos r, offset.end_pos = offset.end_pos r\<rparr>) offs"
  proof (rule nth_equalityI)
    show "length (map (\<lambda>r. \<lparr>offset.start_pos = offset.start_pos r,
        offset.end_pos = offset.end_pos r\<rparr>) rows)
      = length (map (\<lambda>r. \<lparr>offset.start_pos = offset.start_pos r,
        offset.end_pos = offset.end_pos r\<rparr>) offs)"
      by (simp add: len)
  next
    fix i assume "i < length (map (\<lambda>r. \<lparr>offset.start_pos = offset.start_pos r,
        offset.end_pos = offset.end_pos r\<rparr>) rows)"
    then have i: "i < length offs" by (simp add: len)
    then show "map (\<lambda>r. \<lparr>offset.start_pos = offset.start_pos r,
        offset.end_pos = offset.end_pos r\<rparr>) rows ! i
      = map (\<lambda>r. \<lparr>offset.start_pos = offset.start_pos r,
        offset.end_pos = offset.end_pos r\<rparr>) offs ! i"
      by (simp add: len) (simp add: assms(2-5) nth_set_links nth_determine_cases)
  qed
  with set_text_Inr [OF assms(1)] have one: "map (\<lambda>r. \<lparr>offset.start_pos = offset.start_pos r,
      offset.end_pos = offset.end_pos r\<rparr>) rows = offsets" by simp
  have two: "map case_row.case_number rows = map int [1..<Suc (length rows)]"
  proof (rule nth_equalityI)
    show "length (map case_row.case_number rows) = length (map int [1..<Suc (length rows)])"
      by (simp del: upt_Suc)
  next
    fix i assume "i < length (map case_row.case_number rows)"
    then have i: "i < length offs" by (simp add: len)
    then show "map case_row.case_number rows ! i = map int [1..<Suc (length rows)] ! i"
      by (simp add: len nth_upt del: upt_Suc)
         (simp add: assms(2-5) nth_set_links nth_determine_cases)
  qed
  from one two show ?thesis by (rule conjI)
qed

lemma answer_rows_ordered:
  assumes "get_answer_consensus_loop enc self [(name, topic_data)] [] = Inr arows"
  shows "(\<forall>i j. i < j \<and> j < length arows \<longrightarrow>
            offset.end_pos (arows ! i) < offset.start_pos (arows ! j))
         \<and> map case_row.case_number arows = map int [1..<Suc (length arows)]"
proof -
  let ?thr = "dict_get (iaa_config self) ''pass_threshold'' PASS_THRESHOLD"
  let ?ps = "passing_indices topic_data (determine_passing ?thr)"
  let ?R = "TopicData_get_consensus topic_data (determine_passing ?thr)"
  let ?n = "get_contrib_count topic_data"
  let ?offs = "if length ?R = 0 \<and> ?n \<ge> ?thr
                 then [\<lparr>offset.start_pos = 0, offset.end_pos = 0\<rparr>] else ?R"
  let ?f = "\<lambda>r :: row. row.extend r (answer_row.fields ?n)"
  from assms obtain offs where offs: "set_text enc self ?offs = Inr offs"
    and arows: "arows = map ?f (set_links self (determine_cases topic_data offs))"
    unfolding get_answer_consensus_loop_single Let_def
    by (auto split: sum.splits)
  have tr: "map (\<lambda>r. \<lparr>offset.start_pos = offset.start_pos r, offset.end_pos = offset.end_pos r\<rparr>) arows
            = ?offs"
    and cn: "map case_row.case_number arows = map int [1..<Suc (length arows)]"
    using rows_of_offsets [OF offs arows] by (simp_all add: row.defs answer_row.defs)
  have sep: "sorted_wrt (\<lambda>r r'. offset.end_pos r < offset.start_pos r') ?offs"
    using convert_to_ranges_separated [OF distinct_passing_indices, of topic_data "determine_passing ?thr"]
    by (simp add: TopicData_get_consensus_def)
  have len: "length ?offs = length arows"
    using arg_cong [OF tr, of length] by simp
  have nth: "?offs ! i = \<lparr>offset.start_pos = offset.start_pos (arows ! i),
      offset.end_pos = offset.end_pos (arows ! i)\<rparr>" if "i < length arows" for i
    using that arg_cong [OF tr, of "\<lambda>xs. xs ! i"] by simp
  have "offset.end_pos (arows ! i) < offset.start_pos (arows ! j)"
    if "i < j \<and> j < length arows" for i j
  proof -
    from that have i: "i < length arows" and j: "j < length arows" and ij: "i < j" by simp_all
    from j len have "j < length ?offs" by simp
    from separated_nth [OF sep ij this] show ?thesis
      by (simp only: nth [OF i] nth [OF j]) simp
  qed
  with cn show ?thesis by blast
qed

text \<open>
  Claim C3. \<^verbatim>\<open>get_consensus\<close> appends, topic after topic, the rows that one pass of its
  loop produces for the topic. Among the rows of one topic, a later row starts after the end
  of every earlier one, so the ranges are in ascending order of \<^verbatim>\<open>start_pos\<close>, pairwise
  disjoint and never adjacent; the \<^verbatim>\<open>end_pos\<close> of a row is itself a position that did not
  pass; converting the positions covered by the rows to ranges again gives the ranges of the
  rows; and the case numbers are \<open>1, ..., N\<close> in this order, whatever case numbers the
  contributors proposed. The rows that \<^verbatim>\<open>get_answer_consensus\<close> yields for the topic are
  ordered and numbered in the same way; its placeholder row from 0 to 0 covers no position.
\<close>

theorem topic_rows_invariant:
  assumes "get_consensus_loop enc self [(name, topic_data)] [] = Inr rows"
  shows
  "(\<forall>i j. i < j \<and> j < length rows \<longrightarrow>
       offset.end_pos (rows ! i) < offset.start_pos (rows ! j)
       \<and> offset.start_pos (rows ! i) < offset.start_pos (rows ! j))
   \<and> (\<forall>i < length rows. offset.start_pos (rows ! i) < offset.end_pos (rows ! i))
   \<and> (\<forall>i j p. i < length rows \<and> j < length rows \<and> covers (rows ! i) p \<and> covers (rows ! j) p
          \<longrightarrow> i = j)
   \<and> (\<forall>i < length rows.
         offset.end_pos (rows ! i) \<notin>
           set (passing_indices topic_data
                  (determine_passing (dict_get (iaa_config self) ''pass_threshold'' PASS_THRESHOLD))))
   \<and> convert_to_ranges
         (concat (map (\<lambda>r. py_range (offset.start_pos r) (offset.end_pos r)) rows))
       = map (\<lambda>r. \<lparr>offset.start_pos = offset.start_pos r, offset.end_pos = offset.end_pos r\<rparr>) rows
   \<and> map case_row.case_number rows = map int [1..<Suc (length rows)]
   \<and> (\<forall>item items.
         get_consensus_loop enc self (item # items) [] =
           (case get_consensus_loop enc self [item] [] of
              Inl e \<Rightarrow> Inl e
            | Inr rows \<Rightarrow>
                (case get_consensus_loop enc self items [] of
                   Inl e \<Rightarrow> Inl e
                 | Inr rest \<Rightarrow> Inr (rows @ rest))))
   \<and> (\<forall>arows. get_answer_consensus_loop enc self [(name, topic_data)] [] = Inr arows \<longrightarrow>
         (\<forall>i j. i < j \<and> j < length arows \<longrightarrow>
             offset.end_pos (arows ! i) < offset.start_pos (arows ! j))
         \<and> map case_row.case_number arows = map int [1..<Suc (length arows)])"
proof -
  let ?ps = "passing_indices topic_data
                  (determine_passing (dict_get (iaa_config self) ''pass_threshold'' PASS_THRESHOLD))"
  let ?R = "convert_to_ranges ?ps"
  let ?tr = "\<lambda>r :: row. \<lparr>offset.start_pos = offset.start_pos r, offset.end_pos = offset.end_pos r\<rparr>"
  note rt = rows_truncate [OF assms]
  from rt have R: "map ?tr rows = ?R"
    by (simp add: TopicData_get_consensus_def)
  have d: "distinct ?ps" by (rule distinct_passing_indices)
  have len: "length ?R = length rows" using R by (metis length_map)
  have nth: "?R ! i = ?tr (rows ! i)" if "i < length rows" for i
    using that R by (metis nth_map)
  have st: "offset.start_pos (?R ! i) = offset.start_pos (rows ! i)"
    and en: "offset.end_pos (?R ! i) = offset.end_pos (rows ! i)" if "i < length rows" for i
    using nth [OF that] by simp_all
  note sep = convert_to_ranges_separated [OF d]
  have ne: "offset.start_pos (rows ! i) < offset.end_pos (rows ! i)" if "i < length rows" for i
  proof -
    from that len have "?R ! i \<in> set ?R" by simp
    from convert_to_ranges_nonempty [OF d this] that show ?thesis by (simp add: st en)
  qed
  have c1: "offset.end_pos (rows ! i) < offset.start_pos (rows ! j)
       \<and> offset.start_pos (rows ! i) < offset.start_pos (rows ! j)"
    if "i < j \<and> j < length rows" for i j
  proof -
    from that have i: "i < length rows" and j: "j < length rows" and ij: "i < j" by simp_all
    from separated_nth [OF sep ij] j len
    have "offset.end_pos (rows ! i) < offset.start_pos (rows ! j)" by (simp add: st en i)
    with ne [OF i] show ?thesis by simp
  qed
  have c3: "i = j"
    if "i < length rows \<and> j < length rows \<and> covers (rows ! i) p \<and> covers (rows ! j) p"
    for i j p
  proof -
    from that have "i < length ?R" "j < length ?R" "covers (?R ! i) p" "covers (?R ! j) p"
      by (simp_all add: len st en)
    then show ?thesis by (rule separated_unique [OF sep])
  qed
  have c4: "offset.end_pos (rows ! i) \<notin> set ?ps" if "i < length rows" for i
  proof -
    from that len have "?R ! i \<in> set ?R" by simp
    from convert_to_ranges_end_outside [OF d this] that show ?thesis by (simp add: en)
  qed
  have "convert_to_ranges
         (concat (map (\<lambda>r. py_range (offset.start_pos r) (offset.end_pos r)) rows))
      = convert_to_ranges
         (concat (map (\<lambda>r. py_range (offset.start_pos r) (offset.end_pos r)) (map ?tr rows)))"
    by (simp add: comp_def)
  also have "\<dots> = convert_to_ranges
         (concat (map (\<lambda>r. py_range (offset.start_pos r) (offset.end_pos r)) ?R))"
    by (simp only: R)
  also have "\<dots> = ?R" by (rule convert_to_ranges_idem [OF d])
  also have "\<dots> = map ?tr rows" by (simp only: R)
  finally have c5: "convert_to_ranges
         (concat (map (\<lambda>r. py_range (offset.start_pos r) (offset.end_pos r)) rows))
       = map ?tr rows" .
  note c6 = rt [THEN conjunct2]
  have c7: "\<forall>item items.
         get_consensus_loop enc self (item # items) [] =
           (case get_consensus_loop enc self [item] [] of
              Inl e \<Rightarrow> Inl e
            | Inr rows \<Rightarrow>
                (case get_consensus_loop enc self items [] of
                   Inl e \<Rightarrow> Inl e
                 | Inr rest \<Rightarrow> Inr (rows @ rest)))"
    by (intro allI) (rule get_consensus_loop_Cons)
  from c1 have C1: "\<forall>i j. i < j \<and> j < length rows \<longrightarrow>
       offset.end_pos (rows ! i) < offset.start_pos (rows ! j)
       \<and> offset.start_pos (rows ! i) < offset.start_pos (rows ! j)" by blast
  from ne have C2: "\<forall>i < length rows. offset.start_pos (rows ! i) < offset.end_pos (rows ! i)"
    by blast
  from c3 have C3: "\<forall>i j p. i < length rows \<and> j < length rows
      \<and> covers (rows ! i) p \<and> covers (rows ! j) p \<longrightarrow> i = j" by blast
  from c4 have C4: "\<forall>i < length rows. offset.end_pos (rows ! i) \<notin> set ?ps" by blast
  have c8: "\<forall>arows. get_answer_consensus_loop enc self [(name, topic_data)] [] = Inr arows \<longrightarrow>
         (\<forall>i j. i < j \<and> j < length arows \<longrightarrow>
             offset.end_pos (arows ! i) < offset.start_pos (arows ! j))
         \<and> map case_row.case_number arows = map int [1..<Suc (length arows)]"
    by (intro allI impI) (rule answer_rows_ordered)
  from C1 C2 C3 C4 c5 c6 c7 c8 show ?thesis by (intro conjI)
qed

theorem topic_rows_invariant_witness:
  "\<exists>rows. get_consensus_loop ascii_enc example_processor [(''T'', example_topic)] [] = Inr rows
      \<and> map case_row.case_number rows = [1, 2]
      \<and> offset.end_pos (rows ! 0) < offset.start_pos (rows ! 1)
      \<and> convert_to_ranges
            (concat (map (\<lambda>r. py_range (offset.start_pos r) (offset.end_pos r)) rows))
          = [\<lparr>offset.start_pos = 2, offset.end_pos = 4\<rparr>,
             \<lparr>offset.start_pos = 8, offset.end_pos = 10\<rparr>]"
proof -
  let ?rows = "[\<lparr>offset.start_pos = 2, offset.end_pos = 4, text_offset.target_text = ''cd'',
         case_row.topic_name = ''T'', case_row.namespace = ''ns'', case_row.case_number = 1,
         row.article_sha256 = Some ''sha'', row.article_filename = Some ''file'',
         row.task_uuid = ''task''\<rparr>,
       \<lparr>offset.start_pos = 8, offset.end_pos = 10, text_offset.target_text = ''ij'',
         case_row.topic_name = ''T'', case_row.namespace = ''ns'', case_row.case_number = 2,
         row.article_sha256 = Some ''sha'', row.article_filename = Some ''file'',
         row.task_uuid = ''task''\<rparr>]"
  note inv = topic_rows_invariant [OF example_topic_rows]
  from inv [THEN conjunct1, rule_format, of 0 1]
  have a: "offset.end_pos (?rows ! 0) < offset.start_pos (?rows ! 1)" by simp
  from inv [THEN conjunct2, THEN conjunct2, THEN conjunct2, THEN conjunct2, THEN conjunct1]
  have b: "convert_to_ranges
            (concat (map (\<lambda>r. py_range (offset.start_pos r) (offset.end_pos r)) ?rows))
          = [\<lparr>offset.start_pos = 2, offset.end_pos = 4\<rparr>,
             \<lparr>offset.start_pos = 8, offset.end_pos = 10\<rparr>]"
    by simp
  from inv [THEN conjunct2, THEN conjunct2, THEN conjunct2, THEN conjunct2, THEN conjunct2,
      THEN conjunct1]
  have c: "map case_row.case_number ?rows = [1, 2]" by simp
  show ?thesis by (rule exI [of _ ?rows]) (intro conjI example_topic_rows c a b)
qed

subsection \<open>\<^verbatim>\<open>get_answer_consensus\<close>\<close>

lemma set_text_degenerate:
  "set_text enc self [\<lparr>offset.start_pos = 0, offset.end_pos = 0\<rparr>]
     = Inr [\<lparr>offset.start_pos = 0, offset.end_pos = 0, text_offset.target_text = enc []\<rparr>]"
  by (simp add: py_range_def)

lemma example_answer_items:
  "topics_iteritems py2_slot_order example_answer_processor = [(''T'', example_answer_topic)]"
  by code_simp

lemma example_answer_fallback:
  "TopicData_get_consensus example_answer_topic
     (determine_passing (dict_get (iaa_config example_answer_processor) ''pass_threshold''
        PASS_THRESHOLD)) = []
   \<and> dict_get (iaa_config example_answer_processor) ''pass_threshold'' PASS_THRESHOLD
       \<le> get_contrib_count example_answer_topic"
  by code_simp

lemma example_answer_fields:
  "TopicData.topic_name example_answer_topic = ''T''"
  "TopicData.namespace example_answer_topic = ''ns''"
  "ArticleData.article_sha256 (article_data example_answer_processor) = Some ''sha''"
  "ArticleData.article_filename (article_data example_answer_processor) = Some ''file''"
  "ConsensusProcessor.task_uuid example_answer_processor = ''task''"
  "get_contrib_count example_answer_topic = 3"
  by code_simp+

text \<open>
  Claim C7. \<^verbatim>\<open>get_answer_consensus\<close> runs the loop of \<^verbatim>\<open>get_consensus\<close> and appends the
  rows of the topics in the same way. For a topic with at least one passing range, or with
  fewer contributors than \<^verbatim>\<open>pass_threshold\<close>, one pass of its loop yields the rows (or the
  error) of \<^verbatim>\<open>get_consensus\<close>, each row extended by the contributor count. For a topic with
  no passing range whose contributor count reaches the threshold, \<^verbatim>\<open>get_consensus\<close> yields
  no row and \<^verbatim>\<open>get_answer_consensus\<close> exactly one, from position 0 to position 0, with case
  number 1. Every row carries the number of keys of the topic's \<^verbatim>\<open>contrib_dict\<close>.
\<close>

theorem answer_consensus_differs_only_by_fallback:
  fixes self :: ConsensusProcessor and topic_data :: TopicData
  defines "thr \<equiv> dict_get (iaa_config self) ''pass_threshold'' PASS_THRESHOLD"
  defines "n \<equiv> get_contrib_count topic_data"
  shows
  "(TopicData_get_consensus topic_data (determine_passing thr) \<noteq> [] \<or> n < thr \<longrightarrow>
      get_answer_consensus_loop enc self [(name, topic_data)] [] =
        (case get_consensus_loop enc self [(name, topic_data)] [] of
           Inl e \<Rightarrow> Inl e
         | Inr rows \<Rightarrow> Inr (map (\<lambda>r. row.extend r (answer_row.fields n)) rows)))
   \<and> (TopicData_get_consensus topic_data (determine_passing thr) = [] \<and> thr \<le> n \<longrightarrow>
        get_consensus_loop enc self [(name, topic_data)] [] = Inr []
        \<and> get_answer_consensus_loop enc self [(name, topic_data)] [] =
            Inr [\<lparr>offset.start_pos = 0, offset.end_pos = 0, text_offset.target_text = enc [],
                  case_row.topic_name = TopicData.topic_name topic_data,
                  case_row.namespace = TopicData.namespace topic_data,
                  case_row.case_number = 1,
                  row.article_sha256 = ArticleData.article_sha256 (article_data self),
                  row.article_filename = ArticleData.article_filename (article_data self),
                  row.task_uuid = ConsensusProcessor.task_uuid self,
                  extra_contrib_count = n\<rparr>])
   \<and> (\<forall>rows. get_answer_consensus_loop enc self [(name, topic_data)] [] = Inr rows \<longrightarrow>
          (\<forall>r \<in> set rows. extra_contrib_count r = n))
   \<and> n = int (fcard (fmdom (contrib_dict topic_data)))
   \<and> (\<forall>item items.
         get_answer_consensus_loop enc self (item # items) [] =
           (case get_answer_consensus_loop enc self [item] [] of
              Inl e \<Rightarrow> Inl e
            | Inr rows \<Rightarrow>
                (case get_answer_consensus_loop enc self items [] of
                   Inl e \<Rightarrow> Inl e
                 | Inr rest \<Rightarrow> Inr (rows @ rest))))"
proof -
  let ?R = "TopicData_get_consensus topic_data (determine_passing thr)"
  have a: "get_answer_consensus_loop enc self [(name, topic_data)] [] =
        (case get_consensus_loop enc self [(name, topic_data)] [] of
           Inl e \<Rightarrow> Inl e
         | Inr rows \<Rightarrow> Inr (map (\<lambda>r. row.extend r (answer_row.fields n)) rows))"
    if "?R \<noteq> [] \<or> n < thr"
  proof -
    from that show ?thesis
      unfolding get_answer_consensus_loop_single get_consensus_loop_single Let_def
      by (auto simp: thr_def [symmetric] n_def [symmetric] split: sum.splits)
  qed
  have b: "get_consensus_loop enc self [(name, topic_data)] [] = Inr []
        \<and> get_answer_consensus_loop enc self [(name, topic_data)] [] =
            Inr [\<lparr>offset.start_pos = 0, offset.end_pos = 0, text_offset.target_text = enc [],
                  case_row.topic_name = TopicData.topic_name topic_data,
                  case_row.namespace = TopicData.namespace topic_data,
                  case_row.case_number = 1,
                  row.article_sha256 = ArticleData.article_sha256 (article_data self),
                  row.article_filename = ArticleData.article_filename (article_data self),
                  row.task_uuid = ConsensusProcessor.task_uuid self,
                  extra_contrib_count = n\<rparr>]"
    if "?R = [] \<and> thr \<le> n"
  proof
    from that show "get_consensus_loop enc self [(name, topic_data)] [] = Inr []"
      unfolding get_consensus_loop_single
      by (simp add: thr_def [symmetric] determine_cases_def set_links_def)
  next
    from that show "get_answer_consensus_loop enc self [(name, topic_data)] [] =
            Inr [\<lparr>offset.start_pos = 0, offset.end_pos = 0, text_offset.target_text = enc [],
                  case_row.topic_name = TopicData.topic_name topic_data,
                  case_row.namespace = TopicData.namespace topic_data,
                  case_row.case_number = 1,
                  row.article_sha256 = ArticleData.article_sha256 (article_data self),
                  row.article_filename = ArticleData.article_filename (article_data self),
                  row.task_uuid = ConsensusProcessor.task_uuid self,
                  extra_contrib_count = n\<rparr>]"
      unfolding get_answer_consensus_loop_single Let_def
      by (simp add: thr_def n_def py_range_def
            determine_cases_def set_links_def row.defs answer_row.defs)
  qed
  have c: "\<forall>r \<in> set rows. extra_contrib_count r = n"
    if "get_answer_consensus_loop enc self [(name, topic_data)] [] = Inr rows" for rows
    using that unfolding get_answer_consensus_loop_single Let_def
    by (auto simp: n_def [symmetric] row.defs answer_row.defs split: sum.splits)
  have d: "n = int (fcard (fmdom (contrib_dict topic_data)))"
    by (simp add: n_def get_contrib_count_def)
  have e: "\<forall>item items.
         get_answer_consensus_loop enc self (item # items) [] =
           (case get_answer_consensus_loop enc self [item] [] of
              Inl e \<Rightarrow> Inl e
            | Inr rows \<Rightarrow>
                (case get_answer_consensus_loop enc self items [] of
                   Inl e \<Rightarrow> Inl e
                 | Inr rest \<Rightarrow> Inr (rows @ rest)))"
    by (intro allI) (rule get_answer_consensus_loop_Cons)
  from a b c d e show ?thesis by (intro conjI impI allI) blast+
qed

theorem answer_consensus_differs_only_by_fallback_witness:
  "get_consensus py2_slot_order ascii_enc example_answer_processor = Inr []
   \<and> get_answer_consensus py2_slot_order ascii_enc example_answer_processor =
       Inr [\<lparr>offset.start_pos = 0, offset.end_pos = 0, text_offset.target_text = [],
             case_row.topic_name = ''T'', case_row.namespace = ''ns'', case_row.case_number = 1,
             row.article_sha256 = Some ''sha'', row.article_filename = Some ''file'',
             row.task_uuid = ''task'', extra_contrib_count = 3\<rparr>]"
proof -
  note fb = answer_consensus_differs_only_by_fallback
      [where self = example_answer_processor and topic_data = example_answer_topic
         and enc = ascii_enc and name = "''T''",
       THEN conjunct2, THEN conjunct1, rule_format, OF example_answer_fallback]
  have enc0: "ascii_enc [] = []" by (simp add: ascii_enc_def)
  from fb [THEN conjunct1]
  have one: "get_consensus py2_slot_order ascii_enc example_answer_processor = Inr []"
    by (simp only: get_consensus_def example_answer_items)
  have two: "get_answer_consensus py2_slot_order ascii_enc example_answer_processor =
       Inr [\<lparr>offset.start_pos = 0, offset.end_pos = 0, text_offset.target_text = [],
             case_row.topic_name = ''T'', case_row.namespace = ''ns'', case_row.case_number = 1,
             row.article_sha256 = Some ''sha'', row.article_filename = Some ''file'',
             row.task_uuid = ''task'', extra_contrib_count = 3\<rparr>]"
    by (simp only: get_answer_consensus_def example_answer_items fb [THEN conjunct2]
          example_answer_fields enc0)
  from one two show ?thesis by (rule conjI)
qed

subsection \<open>The order of a batch\<close>

lemma fmlookup_dict_fromkeys:
  "fmlookup (dict_fromkeys ks v) k = (if k |\<in>| ks then Some v else None)"
proof -
  have d: "distinct (map fst (map (\<lambda>k. (k, v)) (sorted_list_of_fset ks)))"
    by (simp add: comp_def)
  have "map_of (map (\<lambda>k. (k, v)) (sorted_list_of_fset ks)) k
      = (if k |\<in>| ks then Some v else None)"
    by (simp add: map_of_map_restrict restrict_map_def)
  then show ?thesis by (simp only: dict_fromkeys_def fmlookup_py_dict [OF d])
qed

lemma fmlookup_dict_comprehension:
  "fmlookup (dict_comprehension f ks) k = (if k |\<in>| ks then Some (f k) else None)"
proof -
  have d: "distinct (map fst (map (\<lambda>k. (k, f k)) (sorted_list_of_fset ks)))"
    by (simp add: comp_def)
  have "map_of (map (\<lambda>k. (k, f k)) (sorted_list_of_fset ks)) k
      = (if k |\<in>| ks then Some (f k) else None)"
    by (simp add: map_of_map_restrict restrict_map_def)
  then show ?thesis by (simp only: dict_comprehension_def fmlookup_py_dict [OF d])
qed

lemma case_number_dict_consider:
  "fmlookup (case_number_dict (ContribData_consider c a)) k =
     (if anno.start_pos a \<le> k \<and> k < anno.end_pos a
      then Some (case fmlookup (case_number_dict c) k of
                   None \<Rightarrow> anno.case_number a
                 | Some v \<Rightarrow> min v (anno.case_number a))
      else fmlookup (case_number_dict c) k)"
  by (auto simp: ContribData_consider_def Let_def fmlookup_dict_fromkeys
        fmlookup_dict_comprehension fset_of_list_elem mem_py_range fmlookup_dom_iff
        split: option.splits)

lemma ContribData_consider_commute:
  "ContribData_consider (ContribData_consider c a) b
     = ContribData_consider (ContribData_consider c b) a"
proof -
  let ?l = "ContribData_consider (ContribData_consider c a) b"
  let ?r = "ContribData_consider (ContribData_consider c b) a"
  have "flattened ?l = flattened ?r"
    by (simp add: flattened_consider funion_assoc funion_left_commute funion_commute)
  moreover have "case_number_dict ?l = case_number_dict ?r"
    by (rule fmap_ext) (auto simp: case_number_dict_consider min.commute min.left_commute
          min.assoc split: option.splits)
  ultimately show ?thesis by (rule ContribData.equality) simp
qed

lemma merge_article_commute:
  assumes "agree dec a b"
  shows "merge_article dec a (merge_article dec b ad) = merge_article dec b (merge_article dec a ad)"
proof -
  have chars: "\<And>k c c'. fmlookup (anno_map_of dec a) k = Some c
      \<Longrightarrow> fmlookup (anno_map_of dec b) k = Some c' \<Longrightarrow> c = c'"
    using assms unfolding agree_def by blast
  have "(char_dict ad ++\<^sub>f anno_map_of dec b) ++\<^sub>f anno_map_of dec a
      = (char_dict ad ++\<^sub>f anno_map_of dec a) ++\<^sub>f anno_map_of dec b"
  proof (rule fmap_ext)
    fix k
    show "fmlookup ((char_dict ad ++\<^sub>f anno_map_of dec b) ++\<^sub>f anno_map_of dec a) k
        = fmlookup ((char_dict ad ++\<^sub>f anno_map_of dec a) ++\<^sub>f anno_map_of dec b) k"
      using chars [of k] by (auto simp: fmlookup_dom_iff)
  qed
  moreover from assms have "anno.article_sha256 a = anno.article_sha256 b"
    "anno.article_filename a = anno.article_filename b" by (simp_all add: agree_def)
  ultimately show ?thesis
    by (simp add: merge_article_def split: option.splits)
qed

lemma merge_topic_commute:
  assumes "anno.topic_name a = anno.topic_name b" "anno.namespace a = anno.namespace b"
  shows "merge_topic a (merge_topic b t) = merge_topic b (merge_topic a t)"
proof (rule TopicData.equality)
  show "TopicData.topic_name (merge_topic a (merge_topic b t))
      = TopicData.topic_name (merge_topic b (merge_topic a t))"
    using assms by (simp add: merge_topic_def)
  show "TopicData.namespace (merge_topic a (merge_topic b t))
      = TopicData.namespace (merge_topic b (merge_topic a t))"
    using assms by (simp add: merge_topic_def)
  show "contrib_dict (merge_topic a (merge_topic b t))
      = contrib_dict (merge_topic b (merge_topic a t))"
  proof (cases "contributor_uuid a = contributor_uuid b")
    case True
    then show ?thesis
      by (simp add: merge_topic_def defaultdict_get_def ContribData_consider_commute)
  next
    case False
    then show ?thesis
      by (simp add: merge_topic_def defaultdict_get_def fmupd_reorder_neq)
  qed
  show "TopicData.more (merge_topic a (merge_topic b t))
      = TopicData.more (merge_topic b (merge_topic a t))"
    by simp
qed

lemma merge_commute:
  assumes "agree dec a b"
  shows "merge dec a (merge dec b s) = merge dec b (merge dec a s)"
proof -
  have art: "merge_article dec a (merge_article dec b (article_data s))
      = merge_article dec b (merge_article dec a (article_data s))"
    by (rule merge_article_commute [OF assms])
  let ?t0 = "\<lambda>n. defaultdict_get TopicData_init (topics s) n"
  have top: "fmupd (anno.topic_name a)
        (merge_topic a (defaultdict_get TopicData_init
            (fmupd (anno.topic_name b) (merge_topic b (?t0 (anno.topic_name b))) (topics s))
            (anno.topic_name a)))
        (fmupd (anno.topic_name b) (merge_topic b (?t0 (anno.topic_name b))) (topics s))
      = fmupd (anno.topic_name b)
        (merge_topic b (defaultdict_get TopicData_init
            (fmupd (anno.topic_name a) (merge_topic a (?t0 (anno.topic_name a))) (topics s))
            (anno.topic_name b)))
        (fmupd (anno.topic_name a) (merge_topic a (?t0 (anno.topic_name a))) (topics s))"
  proof (cases "anno.topic_name a = anno.topic_name b")
    case True
    with assms have ns: "anno.namespace a = anno.namespace b" by (simp add: agree_def)
    from True merge_topic_commute [OF True ns] show ?thesis
      by (simp add: defaultdict_get_def)
  next
    case False
    then show ?thesis
      by (simp add: defaultdict_get_def fmupd_reorder_neq)
  qed
  show ?thesis
    by (simp add: merge_def art top)
qed

lemma overlap_check_lookup:
  "fBall (fmdom (char_dict self) |\<inter>| fmdom (anno_map_of dec a))
      (\<lambda>k. fmlookup (char_dict self) k = fmlookup (anno_map_of dec a) k)
   \<longleftrightarrow> (\<forall>k c c'. fmlookup (char_dict self) k = Some c
                \<and> fmlookup (anno_map_of dec a) k = Some c' \<longrightarrow> c = c')"
proof
  assume ok: "fBall (fmdom (char_dict self) |\<inter>| fmdom (anno_map_of dec a))
      (\<lambda>k. fmlookup (char_dict self) k = fmlookup (anno_map_of dec a) k)"
  show "\<forall>k c c'. fmlookup (char_dict self) k = Some c
                \<and> fmlookup (anno_map_of dec a) k = Some c' \<longrightarrow> c = c'"
  proof (intro allI impI)
    fix k c c'
    assume h: "fmlookup (char_dict self) k = Some c \<and> fmlookup (anno_map_of dec a) k = Some c'"
    then have "k |\<in>| fmdom (char_dict self) |\<inter>| fmdom (anno_map_of dec a)"
      by (simp add: fmlookup_dom_iff)
    with ok have "fmlookup (char_dict self) k = fmlookup (anno_map_of dec a) k" by blast
    with h have "Some c = Some c'" by metis
    then show "c = c'" by simp
  qed
next
  assume ag: "\<forall>k c c'. fmlookup (char_dict self) k = Some c
                \<and> fmlookup (anno_map_of dec a) k = Some c' \<longrightarrow> c = c'"
  show "fBall (fmdom (char_dict self) |\<inter>| fmdom (anno_map_of dec a))
      (\<lambda>k. fmlookup (char_dict self) k = fmlookup (anno_map_of dec a) k)"
  proof (rule ballI)
    fix k assume "k |\<in>| fmdom (char_dict self) |\<inter>| fmdom (anno_map_of dec a)"
    then obtain c c' where "fmlookup (char_dict self) k = Some c"
      "fmlookup (anno_map_of dec a) k = Some c'"
      by (auto simp: fmlookup_dom_iff)
    with ag show "fmlookup (char_dict self) k = fmlookup (anno_map_of dec a) k" by force
  qed
qed

lemma ArticleData_consider_merge:
  fixes ad :: ArticleData
  assumes "\<forall>k c c'. fmlookup (char_dict ad) k = Some c
                \<and> fmlookup (anno_map_of dec a) k = Some c' \<longrightarrow> c = c'"
    and "\<forall>h. ArticleData.article_sha256 ad = Some h \<longrightarrow>
               h = anno.article_sha256 a
               \<and> ArticleData.article_filename ad = Some (anno.article_filename a)"
  shows "ArticleData_consider dec ad a = Returns (merge_article dec a ad)"
proof -
  from assms(1) have ok: "fBall (fmdom (char_dict ad) |\<inter>| fmdom (anno_map_of dec a))
      (\<lambda>k. fmlookup (char_dict ad) k = fmlookup (anno_map_of dec a) k)"
    by (simp only: overlap_check_lookup)
  show ?thesis
  proof (cases "ArticleData.article_sha256 ad")
    case None
    with ok show ?thesis
      by (simp add: ArticleData_consider_def Let_def merge_article_def)
  next
    case (Some h)
    with assms(2) have "h = anno.article_sha256 a"
      "ArticleData.article_filename ad = Some (anno.article_filename a)" by simp_all
    with ok Some show ?thesis
      by (cases ad) (simp add: ArticleData_consider_def Let_def merge_article_def)
  qed
qed

lemma TopicData_consider_merge:
  assumes "TopicData.topic_name t = []
     \<or> (TopicData.topic_name t = anno.topic_name a \<and> TopicData.namespace t = anno.namespace a)"
  shows "TopicData_consider t a = Returns (merge_topic a t)"
  using assms by (cases t) (auto simp: TopicData_consider_def Let_def merge_topic_def)

lemma fits_topics_keys [simp]: "fits dec (s\<lparr>topics_keys := ks\<rparr>) a = fits dec s a"
  by (simp add: fits_def)

lemma records_topics_keys [simp]: "records dec (s\<lparr>topics_keys := ks\<rparr>) a = records dec s a"
  by (simp add: records_def)

lemma merge_topics_keys:
  "merge dec a (s\<lparr>topics_keys := ks\<rparr>) = (merge dec a s)\<lparr>topics_keys := ks\<rparr>"
  by (simp add: merge_def)

lemma fold_merge_topics_keys:
  "fold (merge dec) batch (s\<lparr>topics_keys := ks\<rparr>)
     = (fold (merge dec) batch s)\<lparr>topics_keys := ks\<rparr>"
  by (induction batch arbitrary: s) (simp_all add: merge_topics_keys)

lemma consider_loop_step:
  assumes "fits dec s a" "\<not> taskrun_count a < mr"
  shows "consider_loop dec mr s (a # rest) =
     consider_loop dec mr
       ((merge dec a s)\<lparr>topics_keys := insert_key (anno.topic_name a) (topics_keys s)\<rparr>) rest"
proof -
  from assms(1) have art: "ArticleData_consider dec (article_data s) a
      = Returns (merge_article dec a (article_data s))"
    unfolding fits_def by (intro ArticleData_consider_merge) blast+
  let ?t = "defaultdict_get TopicData_init (topics s) (anno.topic_name a)"
  have "TopicData.topic_name ?t = []
     \<or> (TopicData.topic_name ?t = anno.topic_name a \<and> TopicData.namespace ?t = anno.namespace a)"
  proof (cases "fmlookup (topics s) (anno.topic_name a)")
    case None
    then show ?thesis by (simp add: defaultdict_get_def TopicData_init_def)
  next
    case (Some t)
    with assms(1) show ?thesis by (simp add: defaultdict_get_def fits_def)
  qed
  then have top: "TopicData_consider ?t a = Returns (merge_topic a ?t)"
    by (rule TopicData_consider_merge)
  from assms(2) art top show ?thesis
    by (cases s) (simp add: Let_def merge_def)
qed

lemma fits_merge:
  assumes "fits dec s b" "agree dec a b"
  shows "fits dec (merge dec a s) b"
proof -
  note f = assms(1) [unfolded fits_def]
  note g = assms(2) [unfolded agree_def]
  show ?thesis unfolding fits_def
  proof (intro conjI allI impI)
  fix k c c'
  assume h: "fmlookup (char_dict (article_data (merge dec a s))) k = Some c
      \<and> fmlookup (anno_map_of dec b) k = Some c'"
  show "c = c'"
  proof (cases "k |\<in>| fmdom (anno_map_of dec a)")
    case True
    with h have "fmlookup (anno_map_of dec a) k = Some c"
      by (simp add: merge_def merge_article_def)
    with h g show ?thesis by blast
  next
    case False
    with h have "fmlookup (char_dict (article_data s)) k = Some c"
      by (simp add: merge_def merge_article_def)
    with h f show ?thesis by blast
  qed
next
  fix h
  assume h: "ArticleData.article_sha256 (article_data (merge dec a s)) = Some h"
  show "h = anno.article_sha256 b"
    using h f g by (cases "ArticleData.article_sha256 (article_data s)")
      (simp_all add: merge_def merge_article_def)
  show "ArticleData.article_filename (article_data (merge dec a s)) = Some (anno.article_filename b)"
    using h f g by (cases "ArticleData.article_sha256 (article_data s)")
      (simp_all add: merge_def merge_article_def)
next
  fix t
  assume t: "fmlookup (topics (merge dec a s)) (anno.topic_name b) = Some t"
  show "TopicData.topic_name t = []
     \<or> (TopicData.topic_name t = anno.topic_name b \<and> TopicData.namespace t = anno.namespace b)"
  proof (cases "anno.topic_name a = anno.topic_name b")
    case False
    with t have "fmlookup (topics s) (anno.topic_name b) = Some t"
      by (simp add: merge_def)
    with f show ?thesis by blast
  next
    case True
    with g have ns: "anno.namespace a = anno.namespace b" by simp
    let ?t0 = "defaultdict_get TopicData_init (topics s) (anno.topic_name a)"
    from t True have t': "t = merge_topic a ?t0" by (simp add: merge_def)
    show ?thesis
    proof (cases "TopicData.topic_name ?t0 = []")
      case e: True
      with t' True ns show ?thesis by (simp add: merge_topic_def)
    next
      case ne: False
      then obtain t0 where t0: "fmlookup (topics s) (anno.topic_name b) = Some t0" "?t0 = t0"
        using True by (cases "fmlookup (topics s) (anno.topic_name b)")
          (simp_all add: defaultdict_get_def TopicData_init_def)
      with f ne have "TopicData.topic_name t0 = anno.topic_name b
          \<and> TopicData.namespace t0 = anno.namespace b" by auto
      with t' t0 ne show ?thesis by (simp add: merge_topic_def)
    qed
  qed
qed
qed

lemma consider_loop_fold:
  assumes "\<forall>a \<in> set (filter (\<lambda>a. \<not> taskrun_count a < mr) batch). fits dec s a"
    and "\<forall>a \<in> set (filter (\<lambda>a. \<not> taskrun_count a < mr) batch).
         \<forall>b \<in> set (filter (\<lambda>a. \<not> taskrun_count a < mr) batch). agree dec a b"
  shows "consider_loop dec mr s batch
      = Returns ((fold (merge dec) (filter (\<lambda>a. \<not> taskrun_count a < mr) batch) s)
          \<lparr>topics_keys :=
             fold insert_key (map anno.topic_name (filter (\<lambda>a. \<not> taskrun_count a < mr) batch))
               (topics_keys s)\<rparr>)"
  using assms
proof (induction batch arbitrary: s)
  case Nil
  then show ?case by simp
next
  case (Cons a batch)
  let ?kept = "filter (\<lambda>a. \<not> taskrun_count a < mr) batch"
  show ?case
  proof (cases "taskrun_count a < mr")
    case True
    with Cons show ?thesis by simp
  next
    case False
    let ?ks = "insert_key (anno.topic_name a) (topics_keys s)"
    let ?s = "(merge dec a s)\<lparr>topics_keys := ?ks\<rparr>"
    from False Cons.prems(1) have fa: "fits dec s a" by simp
    have "\<forall>b \<in> set ?kept. fits dec ?s b"
    proof
      fix b assume b: "b \<in> set ?kept"
      with Cons.prems(1) False have "fits dec s b" by simp
      moreover from Cons.prems(2) False b have "agree dec a b" by simp
      ultimately have "fits dec (merge dec a s) b" by (rule fits_merge)
      then show "fits dec ?s b" by simp
    qed
    moreover from Cons.prems(2) False
    have "\<forall>a \<in> set ?kept. \<forall>b \<in> set ?kept. agree dec a b"
      by simp
    ultimately have "consider_loop dec mr ?s batch
      = Returns ((fold (merge dec) ?kept ?s)
          \<lparr>topics_keys := fold insert_key (map anno.topic_name ?kept) (topics_keys ?s)\<rparr>)"
      by (rule Cons.IH)
    also have "fold (merge dec) ?kept ?s = (fold (merge dec) ?kept (merge dec a s))\<lparr>topics_keys := ?ks\<rparr>"
      by (rule fold_merge_topics_keys)
    finally have "consider_loop dec mr ?s batch
      = Returns ((fold (merge dec) ?kept (merge dec a s))
          \<lparr>topics_keys := fold insert_key (map anno.topic_name ?kept) ?ks\<rparr>)"
      by simp
    with consider_loop_step [OF fa False, of batch] False show ?thesis by simp
  qed
qed

lemma fits_init: "fits dec (ConsensusProcessor_init uuid cfg) a"
  by (simp add: fits_def ConsensusProcessor_init_def ArticleData_init_def)

lemma agree_overlap:
  "agree dec a b \<longleftrightarrow>
     anno.article_sha256 a = anno.article_sha256 b
     \<and> anno.article_filename a = anno.article_filename b
     \<and> fBall (fmdom (anno_map_of dec a) |\<inter>| fmdom (anno_map_of dec b))
          (\<lambda>k. fmlookup (anno_map_of dec a) k = fmlookup (anno_map_of dec b) k)
     \<and> (anno.topic_name a = anno.topic_name b \<longrightarrow> anno.namespace a = anno.namespace b)"
proof -
  have "fBall (fmdom (anno_map_of dec a) |\<inter>| fmdom (anno_map_of dec b))
          (\<lambda>k. fmlookup (anno_map_of dec a) k = fmlookup (anno_map_of dec b) k)
     \<longleftrightarrow> (\<forall>k c c'. fmlookup (anno_map_of dec a) k = Some c
                  \<and> fmlookup (anno_map_of dec b) k = Some c' \<longrightarrow> c = c')"
    using overlap_check_lookup [of "\<lparr>ArticleData.article_sha256 = None,
        ArticleData.article_filename = None, char_dict = anno_map_of dec a\<rparr>" dec b]
    by simp
  then show ?thesis by (simp only: agree_def)
qed

lemma example_batch_consistent:
  "\<forall>a \<in> set example_batch. \<forall>b \<in> set example_batch.
        \<not> taskrun_count a < dict_get fmempty ''minimum_redundancy'' MIN_REDUNDANCY
        \<and> \<not> taskrun_count b < dict_get fmempty ''minimum_redundancy'' MIN_REDUNDANCY
        \<longrightarrow> agree ascii_dec a b"
  unfolding agree_overlap by code_simp

lemma agree_refl: "agree dec a a"
  by (auto simp: agree_def)

lemma agree_sym: "agree dec a b \<Longrightarrow> agree dec b a"
  unfolding agree_def by (intro conjI allI impI) (simp_all, metis)

lemma accepted_fits:
  assumes "consider_loop dec mr s (b # rest) = Returns p" "\<not> taskrun_count b < mr"
  shows "fits dec s b"
proof -
  from assms obtain ad where ad: "ArticleData_consider dec (article_data s) b = Returns ad"
    by (auto simp: Let_def split: outcome.splits)
  with assms obtain td where
    td: "TopicData_consider (defaultdict_get TopicData_init (topics s) (anno.topic_name b)) b
           = Returns td"
    by (auto simp: Let_def split: outcome.splits)
  from ad have ok: "fBall (fmdom (char_dict (article_data s)) |\<inter>| fmdom (anno_map_of dec b))
      (\<lambda>k. fmlookup (char_dict (article_data s)) k = fmlookup (anno_map_of dec b) k)"
    by (simp add: ArticleData_consider_def Let_def split: if_splits)
  then have chars: "\<forall>k c c'. fmlookup (char_dict (article_data s)) k = Some c
                \<and> fmlookup (anno_map_of dec b) k = Some c' \<longrightarrow> c = c'"
    by (simp only: overlap_check_lookup)
  from ad ok have ident: "\<forall>h. ArticleData.article_sha256 (article_data s) = Some h \<longrightarrow>
               h = anno.article_sha256 b
               \<and> ArticleData.article_filename (article_data s) = Some (anno.article_filename b)"
    by (auto simp: ArticleData_consider_def Let_def split: if_splits option.splits)
  from td have "\<exists>t'. TopicData_consider
      (defaultdict_get TopicData_init (topics s) (anno.topic_name b)) b = Returns t'" by blast
  then have top: "\<forall>t. fmlookup (topics s) (anno.topic_name b) = Some t \<longrightarrow>
               TopicData.topic_name t = []
               \<or> (TopicData.topic_name t = anno.topic_name b
                   \<and> TopicData.namespace t = anno.namespace b)"
    by (auto simp: TopicData_consider_Returns_iff defaultdict_get_def)
  from chars ident top show ?thesis unfolding fits_def by (intro conjI)
qed

lemma records_fits_agree:
  assumes "records dec s a" "fits dec s b" "anno.topic_name a \<noteq> []"
  shows "agree dec a b"
proof -
  note r = assms(1) [unfolded records_def]
  note f = assms(2) [unfolded fits_def]
  from r f have "anno.article_sha256 a = anno.article_sha256 b"
    "anno.article_filename a = anno.article_filename b" by auto
  moreover have "c = c'" if "fmlookup (anno_map_of dec a) k = Some c
      \<and> fmlookup (anno_map_of dec b) k = Some c'" for k c c'
  proof -
    from that r have "fmlookup (char_dict (article_data s)) k = Some c" by blast
    with that f show ?thesis by blast
  qed
  moreover have "anno.namespace a = anno.namespace b"
    if same: "anno.topic_name a = anno.topic_name b"
  proof -
    note ne = assms(3)
    from r obtain t where t: "fmlookup (topics s) (anno.topic_name a) = Some t"
      "TopicData.topic_name t = anno.topic_name a" "TopicData.namespace t = anno.namespace a"
      by blast
    with f same ne show ?thesis by auto
  qed
  ultimately show ?thesis unfolding agree_def by blast
qed

lemma records_self:
  assumes "fits dec s a"
  shows "records dec (merge dec a s) a"
proof -
  note f = assms [unfolded fits_def]
  have chars: "\<forall>k c. fmlookup (anno_map_of dec a) k = Some c \<longrightarrow>
             fmlookup (char_dict (article_data (merge dec a s))) k = Some c"
    by (auto simp: merge_def merge_article_def fmlookup_dom_iff)
  have sha: "ArticleData.article_sha256 (article_data (merge dec a s)) = Some (anno.article_sha256 a)"
    using f by (cases "ArticleData.article_sha256 (article_data s)")
      (simp_all add: merge_def merge_article_def)
  have fn: "ArticleData.article_filename (article_data (merge dec a s))
      = Some (anno.article_filename a)"
    using f by (cases "ArticleData.article_sha256 (article_data s)")
      (simp_all add: merge_def merge_article_def)
  let ?t0 = "defaultdict_get TopicData_init (topics s) (anno.topic_name a)"
  have t0: "TopicData.topic_name ?t0 = []
     \<or> (TopicData.topic_name ?t0 = anno.topic_name a \<and> TopicData.namespace ?t0 = anno.namespace a)"
  proof (cases "fmlookup (topics s) (anno.topic_name a)")
    case None
    then show ?thesis by (simp add: defaultdict_get_def TopicData_init_def)
  next
    case (Some t)
    with f show ?thesis by (simp add: defaultdict_get_def)
  qed
  have look: "fmlookup (topics (merge dec a s)) (anno.topic_name a) = Some (merge_topic a ?t0)"
    by (simp add: merge_def)
  from t0 have "TopicData.topic_name (merge_topic a ?t0) = anno.topic_name a
      \<and> TopicData.namespace (merge_topic a ?t0) = anno.namespace a"
    by (auto simp: merge_topic_def)
  with look have top: "\<exists>t. fmlookup (topics (merge dec a s)) (anno.topic_name a) = Some t
             \<and> TopicData.topic_name t = anno.topic_name a
             \<and> TopicData.namespace t = anno.namespace a" by blast
  from chars sha fn top show ?thesis unfolding records_def by (intro conjI)
qed

lemma records_merge:
  assumes "records dec s a" "fits dec s b" "anno.topic_name a \<noteq> []"
  shows "records dec (merge dec b s) a"
proof -
  note r = assms(1) [unfolded records_def]
  note f = assms(2) [unfolded fits_def]
  have chars: "\<forall>k c. fmlookup (anno_map_of dec a) k = Some c \<longrightarrow>
             fmlookup (char_dict (article_data (merge dec b s))) k = Some c"
  proof (intro allI impI)
    fix k c assume a: "fmlookup (anno_map_of dec a) k = Some c"
    with r have cd: "fmlookup (char_dict (article_data s)) k = Some c" by blast
    show "fmlookup (char_dict (article_data (merge dec b s))) k = Some c"
    proof (cases "fmlookup (anno_map_of dec b) k")
      case None
      with cd show ?thesis by (simp add: merge_def merge_article_def fmdom_notI)
    next
      case (Some c')
      with cd f have "c = c'" by blast
      with Some show ?thesis by (simp add: merge_def merge_article_def fmlookup_dom_iff)
    qed
  qed
  from r have sha: "ArticleData.article_sha256 (article_data (merge dec b s))
      = Some (anno.article_sha256 a)"
    and fn: "ArticleData.article_filename (article_data (merge dec b s))
      = Some (anno.article_filename a)"
    by (simp_all add: merge_def merge_article_def)
  from r obtain t where t: "fmlookup (topics s) (anno.topic_name a) = Some t"
    "TopicData.topic_name t = anno.topic_name a" "TopicData.namespace t = anno.namespace a"
    by blast
  have top: "\<exists>t. fmlookup (topics (merge dec b s)) (anno.topic_name a) = Some t
             \<and> TopicData.topic_name t = anno.topic_name a
             \<and> TopicData.namespace t = anno.namespace a"
  proof (cases "anno.topic_name b = anno.topic_name a")
    case False
    with t show ?thesis by (simp add: merge_def)
  next
    case True
    with t have "fmlookup (topics (merge dec b s)) (anno.topic_name a) = Some (merge_topic b t)"
      by (simp add: merge_def defaultdict_get_def)
    moreover from t assms(3) have "TopicData.topic_name (merge_topic b t) = anno.topic_name a
        \<and> TopicData.namespace (merge_topic b t) = anno.namespace a"
      by (simp add: merge_topic_def)
    ultimately show ?thesis by blast
  qed
  from chars sha fn top show ?thesis unfolding records_def by (intro conjI)
qed

lemma accepted_agree_aux:
  assumes "consider_loop dec mr s batch = Returns p"
    and "\<forall>a \<in> P. records dec s a \<and> anno.topic_name a \<noteq> []"
    and "\<forall>a \<in> set batch. \<not> taskrun_count a < mr \<longrightarrow> anno.topic_name a \<noteq> []"
  shows "\<forall>b \<in> set (filter (\<lambda>a. \<not> taskrun_count a < mr) batch).
           (\<forall>a \<in> P. agree dec a b)
           \<and> (\<forall>a \<in> set (filter (\<lambda>a. \<not> taskrun_count a < mr) batch). agree dec a b)"
  using assms
proof (induction batch arbitrary: s P)
  case Nil
  then show ?case by simp
next
  case (Cons b batch)
  let ?kept = "filter (\<lambda>a. \<not> taskrun_count a < mr) batch"
  show ?case
  proof (cases "taskrun_count b < mr")
    case True
    with Cons.prems have "consider_loop dec mr s batch = Returns p" by simp
    from Cons.IH [OF this Cons.prems(2)] Cons.prems(3) True show ?thesis by simp
  next
    case False
    with Cons.prems(3) have ne: "anno.topic_name b \<noteq> []" by simp
    from accepted_fits [OF Cons.prems(1) False] have fb: "fits dec s b" .
    let ?s = "(merge dec b s)\<lparr>topics_keys := insert_key (anno.topic_name b) (topics_keys s)\<rparr>"
    from consider_loop_step [OF fb False, of batch] Cons.prems(1)
    have next_state: "consider_loop dec mr ?s batch = Returns p" by simp
    have rec: "\<forall>a \<in> insert b P. records dec ?s a \<and> anno.topic_name a \<noteq> []"
    proof
      fix a assume "a \<in> insert b P"
      then consider "a = b" | "a \<in> P" by blast
      then show "records dec ?s a \<and> anno.topic_name a \<noteq> []"
      proof cases
        case 1
        with records_self [OF fb] ne show ?thesis by simp
      next
        case 2
        with Cons.prems(2) have "records dec s a" "anno.topic_name a \<noteq> []" by simp_all
        with records_merge [OF _ fb, of a] show ?thesis by simp
      qed
    qed
    have rest: "\<forall>a \<in> set batch. \<not> taskrun_count a < mr \<longrightarrow> anno.topic_name a \<noteq> []"
      using Cons.prems(3) by simp
    note IH = Cons.IH [OF next_state rec rest]
    have Pb: "\<forall>a \<in> P. agree dec a b"
    proof
      fix a assume "a \<in> P"
      with Cons.prems(2) have "records dec s a" "anno.topic_name a \<noteq> []" by simp_all
      then show "agree dec a b" using fb by (intro records_fits_agree) simp_all
    qed
    have bk: "\<forall>c \<in> set ?kept. agree dec b c" using IH by blast
    have kb: "\<forall>c \<in> set ?kept. agree dec c b" using bk by (blast intro: agree_sym)
    have "(\<forall>a \<in> P. agree dec a c) \<and> (\<forall>a \<in> set (b # ?kept). agree dec a c)"
      if "c \<in> set (b # ?kept)" for c
    proof (cases "c = b")
      case True
      with Pb kb agree_refl [of dec b] show ?thesis by simp
    next
      case False
      with that have c: "c \<in> set ?kept" by simp
      with IH have "(\<forall>a \<in> insert b P. agree dec a c) \<and> (\<forall>a \<in> set ?kept. agree dec a c)"
        by blast
      then show ?thesis by simp
    qed
    with False show ?thesis by simp
  qed
qed

lemma accepted_batch_is_consistent:
  assumes "ConsensusProcessor_consider dec (ConsensusProcessor_init uuid cfg) batch = Returns p"
    and "\<forall>a \<in> set batch.
           \<not> taskrun_count a < dict_get cfg ''minimum_redundancy'' MIN_REDUNDANCY \<longrightarrow>
           anno.topic_name a \<noteq> []"
  shows "\<forall>a \<in> set batch. \<forall>b \<in> set batch.
        \<not> taskrun_count a < dict_get cfg ''minimum_redundancy'' MIN_REDUNDANCY
        \<and> \<not> taskrun_count b < dict_get cfg ''minimum_redundancy'' MIN_REDUNDANCY
        \<longrightarrow> agree dec a b"
proof -
  let ?mr = "dict_get cfg ''minimum_redundancy'' MIN_REDUNDANCY"
  from assms(1) have run: "consider_loop dec ?mr (ConsensusProcessor_init uuid cfg) batch = Returns p"
    by (simp add: ConsensusProcessor_consider_def ConsensusProcessor_init_def)
  have empty: "\<forall>a \<in> {}. records dec (ConsensusProcessor_init uuid cfg) a \<and> anno.topic_name a \<noteq> []"
    by simp
  from accepted_agree_aux [OF run empty assms(2)] show ?thesis by simp
qed

lemma consider_loop_topics_keys:
  assumes "fset (fmdom (topics s)) = set (topics_keys s)" "distinct (topics_keys s)"
  shows "case consider_loop dec mr s batch of
           Returns p \<Rightarrow> fset (fmdom (topics p)) = set (topics_keys p) \<and> distinct (topics_keys p)
         | Raises e p \<Rightarrow> fset (fmdom (topics p)) = set (topics_keys p) \<and> distinct (topics_keys p)"
  using assms
proof (induction batch arbitrary: s)
  case Nil
  then show ?case by simp
next
  case (Cons a batch)
  show ?case
  proof (cases "taskrun_count a < mr")
    case True
    with Cons show ?thesis by simp
  next
    case False
    show ?thesis
    proof (cases "ArticleData_consider dec (article_data s) a")
      case (Raises e ad)
      with False Cons.prems show ?thesis by simp
    next
      case ad: (Returns ad)
      let ?n = "anno.topic_name a"
      let ?ks = "insert_key ?n (topics_keys s)"
      have ks: "set ?ks = insert ?n (set (topics_keys s))" "distinct ?ks"
        using Cons.prems(2) by (auto simp: insert_key_def)
      show ?thesis
      proof (cases "TopicData_consider (defaultdict_get TopicData_init (topics s) ?n) a")
        case (Raises e td)
        with False ad ks Cons.prems(1) show ?thesis by (simp add: Let_def)
      next
        case (Returns td)
        let ?s = "s\<lparr>article_data := ad, topics_keys := ?ks, topics := fmupd ?n td (topics s)\<rparr>"
        have "fset (fmdom (topics ?s)) = set (topics_keys ?s)" "distinct (topics_keys ?s)"
          using ks Cons.prems(1) by simp_all
        from Cons.IH [OF this] False ad Returns show ?thesis by (simp add: Let_def)
      qed
    qed
  qed
qed

lemma consider_topics_keys:
  "case ConsensusProcessor_consider dec (ConsensusProcessor_init uuid cfg) batch of
           Returns p \<Rightarrow> fset (fmdom (topics p)) = set (topics_keys p) \<and> distinct (topics_keys p)
         | Raises e p \<Rightarrow> fset (fmdom (topics p)) = set (topics_keys p) \<and> distinct (topics_keys p)"
  unfolding ConsensusProcessor_consider_def Let_def
  by (rule consider_loop_topics_keys) (simp_all add: ConsensusProcessor_init_def)

lemma set_fold_insert_key: "set (fold insert_key ks acc) = set acc \<union> set ks"
  by (induction ks arbitrary: acc) (auto simp: insert_key_def)

lemma distinct_fold_insert_key: "distinct acc \<Longrightarrow> distinct (fold insert_key ks acc)"
  by (induction ks arbitrary: acc) (simp_all add: insert_key_def)

lemma mset_fold_insert_key:
  assumes "set ks' = set ks"
  shows "mset (fold insert_key ks' []) = mset (fold insert_key ks [])"
proof -
  have "set (fold insert_key ks' []) = set (fold insert_key ks [])"
    using assms by (simp add: set_fold_insert_key)
  moreover have "distinct (fold insert_key ks' [])" "distinct (fold insert_key ks [])"
    by (simp_all add: distinct_fold_insert_key)
  ultimately show ?thesis by (simp add: set_eq_iff_mset_eq_distinct)
qed

lemma set_text_topics_keys:
  "set_text enc (s\<lparr>topics_keys := ks\<rparr>) offsets = set_text enc s offsets"
  by (induction offsets) (simp_all add: Let_def split: sum.splits)

lemma get_consensus_loop_topics_keys:
  "get_consensus_loop enc (s\<lparr>topics_keys := ks\<rparr>) items acc = get_consensus_loop enc s items acc"
proof (induction items arbitrary: acc)
  case Nil
  then show ?case by simp
next
  case (Cons item items)
  obtain name topic_data where item: "item = (name, topic_data)" by (cases item)
  show ?case unfolding item
    by (simp add: Let_def set_text_topics_keys set_links_def Cons.IH split: sum.splits)
qed

lemma get_consensus_loop_single_error:
  "get_consensus_loop enc s [item] [] = Inl e \<Longrightarrow> e = KeyError"
  by (cases item) (auto simp: get_consensus_loop_single dest: set_text_error split: sum.splits)

lemma get_consensus_loop_items:
  "get_consensus_loop enc s items [] =
     (if \<exists>item \<in> set items. \<exists>e. get_consensus_loop enc s [item] [] = Inl e then Inl KeyError
      else Inr (concat (map (\<lambda>item. case get_consensus_loop enc s [item] [] of
                                        Inl e \<Rightarrow> [] | Inr rows \<Rightarrow> rows) items)))"
proof (induction items)
  case Nil
  then show ?case by simp
next
  case (Cons item items)
  show ?case
  proof (cases "get_consensus_loop enc s [item] []")
    case (Inl e)
    then have "e = KeyError" by (rule get_consensus_loop_single_error)
    with Inl have one: "get_consensus_loop enc s [item] [] = Inl KeyError" by simp
    have "get_consensus_loop enc s (item # items) [] = Inl KeyError"
      by (subst get_consensus_loop_Cons) (simp add: one)
    moreover have "\<exists>i \<in> set (item # items). \<exists>e. get_consensus_loop enc s [i] [] = Inl e"
      using one by auto
    ultimately show ?thesis by (simp only: if_True)
  next
    case (Inr rows)
    have step: "get_consensus_loop enc s (item # items) [] =
        (case get_consensus_loop enc s items [] of
           Inl e \<Rightarrow> Inl e | Inr rest \<Rightarrow> Inr (rows @ rest))"
      by (subst get_consensus_loop_Cons) (simp add: Inr)
    have ex: "(\<exists>i \<in> set (item # items). \<exists>e. get_consensus_loop enc s [i] [] = Inl e)
        \<longleftrightarrow> (\<exists>i \<in> set items. \<exists>e. get_consensus_loop enc s [i] [] = Inl e)"
      using Inr by auto
    show ?thesis
    proof (cases "\<exists>i \<in> set items. \<exists>e. get_consensus_loop enc s [i] [] = Inl e")
      case True
      with Cons.IH have "get_consensus_loop enc s items [] = Inl KeyError" by simp
      with step have "get_consensus_loop enc s (item # items) [] = Inl KeyError" by simp
      moreover from True ex
      have "\<exists>i \<in> set (item # items). \<exists>e. get_consensus_loop enc s [i] [] = Inl e" by blast
      ultimately show ?thesis by (simp only: if_True)
    next
      case False
      with Cons.IH have "get_consensus_loop enc s items [] =
          Inr (concat (map (\<lambda>item. case get_consensus_loop enc s [item] [] of
                                        Inl e \<Rightarrow> [] | Inr rows \<Rightarrow> rows) items))" by simp
      with step have "get_consensus_loop enc s (item # items) [] =
          Inr (rows @ concat (map (\<lambda>item. case get_consensus_loop enc s [item] [] of
                                        Inl e \<Rightarrow> [] | Inr rows \<Rightarrow> rows) items))" by simp
      moreover from False ex
      have "\<not> (\<exists>i \<in> set (item # items). \<exists>e. get_consensus_loop enc s [i] [] = Inl e)" by blast
      ultimately show ?thesis using Inr by (simp only: if_False) simp
    qed
  qed
qed

lemma get_consensus_loop_mset:
  assumes "mset items' = mset items"
  shows "map_sum id mset (get_consensus_loop enc s items' [])
       = map_sum id mset (get_consensus_loop enc s items [])"
proof -
  let ?g = "\<lambda>item. case get_consensus_loop enc s [item] [] of Inl e \<Rightarrow> [] | Inr rows \<Rightarrow> rows"
  have set: "set items' = set items" using assms by (rule mset_eq_setD)
  have sum: "mset (concat (map ?g xs)) = sum_mset (image_mset (\<lambda>x. mset (?g x)) (mset xs))"
    for xs
    by (induction xs) simp_all
  have "mset (concat (map ?g items')) = mset (concat (map ?g items))"
    by (simp only: sum assms)
  then show ?thesis
    by (simp add: get_consensus_loop_items [of enc s items']
          get_consensus_loop_items [of enc s items] set)
qed

lemma mset_topics_iteritems:
  assumes "topics p' = topics p"
    and "mset (slot_order (topics_keys p')) = mset (slot_order (topics_keys p))"
  shows "mset (topics_iteritems slot_order p') = mset (topics_iteritems slot_order p)"
  using assms by (simp add: topics_iteritems_def List.map_filter_def)

lemma collision_batch_consistent:
  "\<forall>a \<in> set collision_batch. \<forall>b \<in> set collision_batch.
        \<not> taskrun_count a < dict_get fmempty ''minimum_redundancy'' MIN_REDUNDANCY
        \<and> \<not> taskrun_count b < dict_get fmempty ''minimum_redundancy'' MIN_REDUNDANCY
        \<longrightarrow> agree ascii_dec a b"
  unfolding agree_overlap by code_simp

lemma collision_keys:
  "(case ConsensusProcessor_consider ascii_dec (ConsensusProcessor_init ''task'' fmempty)
           collision_batch of
      Returns p \<Rightarrow> topics_keys p | Raises e p \<Rightarrow> []) = [''T1'', ''T9'']"
  "(case ConsensusProcessor_consider ascii_dec (ConsensusProcessor_init ''task'' fmempty)
           (rev collision_batch) of
      Returns p \<Rightarrow> topics_keys p | Raises e p \<Rightarrow> []) = [''T9'', ''T1'']"
  by code_simp+

lemma collision_slot_order:
  "py2_slot_order [''T1'', ''T9''] = [''T9'', ''T1'']"
  "py2_slot_order [''T9'', ''T1''] = [''T1'', ''T9'']"
  by code_simp+

lemma collision_rows:
  "(case ConsensusProcessor_consider ascii_dec (ConsensusProcessor_init ''task'' fmempty)
           collision_batch of
      Returns p \<Rightarrow> get_consensus py2_slot_order ascii_enc p | Raises e p \<Rightarrow> Inl e)
     = Inr [\<lparr>offset.start_pos = 2, offset.end_pos = 6, text_offset.target_text = ''cdef'',
             case_row.topic_name = ''T9'', case_row.namespace = ''ns'', case_row.case_number = 1,
             row.article_sha256 = Some ''sha'', row.article_filename = Some ''file'',
             row.task_uuid = ''task''\<rparr>,
            \<lparr>offset.start_pos = 0, offset.end_pos = 4, text_offset.target_text = ''abcd'',
             case_row.topic_name = ''T1'', case_row.namespace = ''ns'', case_row.case_number = 1,
             row.article_sha256 = Some ''sha'', row.article_filename = Some ''file'',
             row.task_uuid = ''task''\<rparr>]"
  "(case ConsensusProcessor_consider ascii_dec (ConsensusProcessor_init ''task'' fmempty)
           (rev collision_batch) of
      Returns p \<Rightarrow> get_consensus py2_slot_order ascii_enc p | Raises e p \<Rightarrow> Inl e)
     = Inr [\<lparr>offset.start_pos = 0, offset.end_pos = 4, text_offset.target_text = ''abcd'',
             case_row.topic_name = ''T1'', case_row.namespace = ''ns'', case_row.case_number = 1,
             row.article_sha256 = Some ''sha'', row.article_filename = Some ''file'',
             row.task_uuid = ''task''\<rparr>,
            \<lparr>offset.start_pos = 2, offset.end_pos = 6, text_offset.target_text = ''cdef'',
             case_row.topic_name = ''T9'', case_row.namespace = ''ns'', case_row.case_number = 1,
             row.article_sha256 = Some ''sha'', row.article_filename = Some ''file'',
             row.task_uuid = ''task''\<rparr>]"
  by code_simp+

text \<open>
  Claim C4. A batch is consistent when its annotations that pass the redundancy filter agree
  pairwise; a batch that \<^verbatim>\<open>consider\<close> accepts on a new processor and whose annotations
  all carry a non-empty topic name is consistent (lemma \<open>accepted_batch_is_consistent\<close>). For
  such a batch \<^verbatim>\<open>consider\<close> on a new processor returns for the batch and for every
  permutation of it, with the same \<^verbatim>\<open>char_dict\<close>, the same article data and the same
  content of \<^verbatim>\<open>self.topics\<close>; the two processors differ at most in the order in which the
  topic names were inserted. So the loop of \<^verbatim>\<open>get_consensus\<close> yields the same rows for
  every topic, and \<^verbatim>\<open>get_consensus\<close> returns the same rows, topic after topic, when the
  dictionary iterates the topics in the same order, as it does with a single topic. In
  general the two results hold the same rows, each as often, with the topics in the order
  of the iteration; an error is the same for both.
\<close>

theorem consider_commutes:
  fixes batch batch' :: "anno list" and slot_order :: "string list \<Rightarrow> string list"
  assumes consistent:
    "(\<forall>a \<in> set batch. \<forall>b \<in> set batch.
        \<not> taskrun_count a < dict_get cfg ''minimum_redundancy'' MIN_REDUNDANCY
        \<and> \<not> taskrun_count b < dict_get cfg ''minimum_redundancy'' MIN_REDUNDANCY
        \<longrightarrow> agree dec a b)
     \<or> ((\<exists>p. ConsensusProcessor_consider dec (ConsensusProcessor_init uuid cfg) batch = Returns p)
         \<and> (\<forall>a \<in> set batch.
               \<not> taskrun_count a < dict_get cfg ''minimum_redundancy'' MIN_REDUNDANCY \<longrightarrow>
               anno.topic_name a \<noteq> []))"
    and perm: "mset batch' = mset batch"
  shows "\<exists>p p'. ConsensusProcessor_consider dec (ConsensusProcessor_init uuid cfg) batch = Returns p
           \<and> ConsensusProcessor_consider dec (ConsensusProcessor_init uuid cfg) batch' = Returns p'
           \<and> char_dict (article_data p') = char_dict (article_data p)
           \<and> p'\<lparr>topics_keys := topics_keys p\<rparr> = p
           \<and> mset (topics_keys p') = mset (topics_keys p)
           \<and> (\<forall>items. get_consensus_loop enc p' items [] = get_consensus_loop enc p items [])
           \<and> (slot_order (topics_keys p') = slot_order (topics_keys p) \<longrightarrow>
                 get_consensus slot_order enc p' = get_consensus slot_order enc p)
           \<and> (mset (slot_order (topics_keys p')) = mset (slot_order (topics_keys p)) \<longrightarrow>
                 map_sum id mset (get_consensus slot_order enc p')
                   = map_sum id mset (get_consensus slot_order enc p))"
proof -
  let ?mr = "dict_get cfg ''minimum_redundancy'' MIN_REDUNDANCY"
  let ?s = "ConsensusProcessor_init uuid cfg"
  let ?keep = "\<lambda>a. \<not> taskrun_count a < ?mr"
  let ?names = "\<lambda>batch. map anno.topic_name (filter ?keep batch)"
  let ?p = "(fold (merge dec) (filter ?keep batch) ?s)
      \<lparr>topics_keys := fold insert_key (?names batch) (topics_keys ?s)\<rparr>"
  let ?p' = "(fold (merge dec) (filter ?keep batch') ?s)
      \<lparr>topics_keys := fold insert_key (?names batch') (topics_keys ?s)\<rparr>"
  have pairwise: "\<forall>a \<in> set batch. \<forall>b \<in> set batch. ?keep a \<and> ?keep b \<longrightarrow> agree dec a b"
    using consistent
  proof
    assume "\<forall>a \<in> set batch. \<forall>b \<in> set batch. ?keep a \<and> ?keep b \<longrightarrow> agree dec a b"
    then show ?thesis .
  next
    assume "(\<exists>p. ConsensusProcessor_consider dec ?s batch = Returns p)
         \<and> (\<forall>a \<in> set batch. ?keep a \<longrightarrow> anno.topic_name a \<noteq> [])"
    then obtain p where "ConsensusProcessor_consider dec ?s batch = Returns p"
      and "\<forall>a \<in> set batch. ?keep a \<longrightarrow> anno.topic_name a \<noteq> []" by blast
    then show ?thesis by (rule accepted_batch_is_consistent)
  qed
  have mr: "dict_get (iaa_config ?s) ''minimum_redundancy'' MIN_REDUNDANCY = ?mr"
    by (simp add: ConsensusProcessor_init_def)
  have set: "set batch' = set batch" using perm by (rule mset_eq_setD)
  have ag: "\<forall>a \<in> set (filter ?keep batch). \<forall>b \<in> set (filter ?keep batch). agree dec a b"
    using pairwise by simp
  have ag': "\<forall>a \<in> set (filter ?keep batch'). \<forall>b \<in> set (filter ?keep batch'). agree dec a b"
    using pairwise set by simp
  have one: "ConsensusProcessor_consider dec ?s batch = Returns ?p"
    unfolding ConsensusProcessor_consider_def Let_def mr
    by (rule consider_loop_fold) (simp add: fits_init, rule ag)
  have two: "ConsensusProcessor_consider dec ?s batch' = Returns ?p'"
    unfolding ConsensusProcessor_consider_def Let_def mr
    by (rule consider_loop_fold) (simp add: fits_init, rule ag')
  have "fold (merge dec) (filter ?keep batch) = fold (merge dec) (filter ?keep batch')"
  proof (rule fold_multiset_equiv)
    fix a b
    assume "a \<in> set (filter ?keep batch)" "b \<in> set (filter ?keep batch)"
    with ag have "agree dec a b" by blast
    then show "merge dec a \<circ> merge dec b = merge dec b \<circ> merge dec a"
      by (auto simp: fun_eq_iff intro: merge_commute)
  next
    show "mset (filter ?keep batch) = mset (filter ?keep batch')"
      using perm by simp
  qed
  then have content: "fold (merge dec) (filter ?keep batch') ?s
      = fold (merge dec) (filter ?keep batch) ?s" by simp
  have same: "?p'\<lparr>topics_keys := topics_keys ?p\<rparr> = ?p"
    by (simp add: content)
  have chars: "char_dict (article_data ?p') = char_dict (article_data ?p)"
    by (simp add: content)
  have "set (?names batch') = set (?names batch)" using set by simp
  then have "mset (fold insert_key (?names batch') []) = mset (fold insert_key (?names batch) [])"
    by (rule mset_fold_insert_key)
  then have keys: "mset (topics_keys ?p') = mset (topics_keys ?p)"
    by (simp add: ConsensusProcessor_init_def)
  have loop: "get_consensus_loop enc ?p' items acc = get_consensus_loop enc ?p items acc"
    for items acc
  proof -
    have "get_consensus_loop enc (?p'\<lparr>topics_keys := topics_keys ?p\<rparr>) items acc
        = get_consensus_loop enc ?p' items acc"
      by (rule get_consensus_loop_topics_keys)
    then show ?thesis by (simp only: same)
  qed
  have tops: "topics ?p' = topics ?p" by (simp add: content)
  have ordered: "get_consensus slot_order enc ?p' = get_consensus slot_order enc ?p"
    if "slot_order (topics_keys ?p') = slot_order (topics_keys ?p)"
  proof -
    from that tops have "topics_iteritems slot_order ?p' = topics_iteritems slot_order ?p"
      by (simp only: topics_iteritems_def)
    then show ?thesis by (simp only: get_consensus_def loop)
  qed
  have unordered: "map_sum id mset (get_consensus slot_order enc ?p')
      = map_sum id mset (get_consensus slot_order enc ?p)"
    if "mset (slot_order (topics_keys ?p')) = mset (slot_order (topics_keys ?p))"
  proof -
    from tops that
    have "mset (topics_iteritems slot_order ?p') = mset (topics_iteritems slot_order ?p)"
      by (rule mset_topics_iteritems)
    then have "map_sum id mset (get_consensus_loop enc ?p (topics_iteritems slot_order ?p') [])
        = map_sum id mset (get_consensus_loop enc ?p (topics_iteritems slot_order ?p) [])"
      by (rule get_consensus_loop_mset)
    then show ?thesis by (simp only: get_consensus_def loop)
  qed
  have all: "\<forall>items. get_consensus_loop enc ?p' items [] = get_consensus_loop enc ?p items []"
    by (intro allI) (rule loop)
  from ordered have ordered': "slot_order (topics_keys ?p') = slot_order (topics_keys ?p) \<longrightarrow>
      get_consensus slot_order enc ?p' = get_consensus slot_order enc ?p" by (rule impI)
  from unordered
  have unordered': "mset (slot_order (topics_keys ?p')) = mset (slot_order (topics_keys ?p)) \<longrightarrow>
      map_sum id mset (get_consensus slot_order enc ?p')
        = map_sum id mset (get_consensus slot_order enc ?p)" by (rule impI)
  show ?thesis
    by (rule exI [of _ ?p], rule exI [of _ ?p'])
      (intro conjI one two chars same keys all ordered' unordered')
qed

theorem consider_commutes_witness:
  "\<exists>p p'. ConsensusProcessor_consider ascii_dec (ConsensusProcessor_init ''task'' fmempty)
          collision_batch = Returns p
      \<and> ConsensusProcessor_consider ascii_dec (ConsensusProcessor_init ''task'' fmempty)
          (rev collision_batch) = Returns p'
      \<and> char_dict (article_data p') = char_dict (article_data p)
      \<and> topics p' = topics p
      \<and> topics_keys p = [''T1'', ''T9''] \<and> topics_keys p' = [''T9'', ''T1'']
      \<and> map_sum id mset (get_consensus py2_slot_order ascii_enc p')
          = map_sum id mset (get_consensus py2_slot_order ascii_enc p)"
proof -
  have perm: "mset (rev collision_batch) = mset collision_batch" by simp
  from consider_commutes [OF disjI1 [OF collision_batch_consistent] perm,
      of "''task''" ascii_enc py2_slot_order]
  obtain p p' where
    p: "ConsensusProcessor_consider ascii_dec (ConsensusProcessor_init ''task'' fmempty)
          collision_batch = Returns p"
    and p': "ConsensusProcessor_consider ascii_dec (ConsensusProcessor_init ''task'' fmempty)
          (rev collision_batch) = Returns p'"
    and chars: "char_dict (article_data p') = char_dict (article_data p)"
    and same: "p'\<lparr>topics_keys := topics_keys p\<rparr> = p"
    and rows: "mset (py2_slot_order (topics_keys p')) = mset (py2_slot_order (topics_keys p)) \<longrightarrow>
                 map_sum id mset (get_consensus py2_slot_order ascii_enc p')
                   = map_sum id mset (get_consensus py2_slot_order ascii_enc p)"
    by blast
  from collision_keys(1) p have k: "topics_keys p = [''T1'', ''T9'']" by simp
  from collision_keys(2) p' have k': "topics_keys p' = [''T9'', ''T1'']" by simp
  from same have "topics (p'\<lparr>topics_keys := topics_keys p\<rparr>) = topics p" by simp
  then have tops: "topics p' = topics p" by simp
  have "mset (py2_slot_order (topics_keys p')) = mset (py2_slot_order (topics_keys p))"
    by (simp add: k k' collision_slot_order)
  with rows have "map_sum id mset (get_consensus py2_slot_order ascii_enc p')
      = map_sum id mset (get_consensus py2_slot_order ascii_enc p)" by blast
  with p p' chars tops k k' show ?thesis by blast
qed

text \<open>
  The rows of two topics can change places. The topic names \<^verbatim>\<open>T1\<close> and \<^verbatim>\<open>T9\<close> both
  hash to slot 7 of the 8 slots; the name that comes second in the batch finds the slot taken and
  goes to slot 3, so it is iterated first. The batch is consistent, and its reversal is a
  permutation of it.
\<close>

theorem consider_commutes_counterexample:
  "\<exists>p p'. list_all (\<lambda>a. list_all (agree ascii_dec a) collision_batch) collision_batch
      \<and> mset (rev collision_batch) = mset collision_batch
      \<and> ConsensusProcessor_consider ascii_dec (ConsensusProcessor_init ''task'' fmempty)
          collision_batch = Returns p
      \<and> ConsensusProcessor_consider ascii_dec (ConsensusProcessor_init ''task'' fmempty)
          (rev collision_batch) = Returns p'
      \<and> get_consensus py2_slot_order ascii_enc p
          = Inr [\<lparr>offset.start_pos = 2, offset.end_pos = 6, text_offset.target_text = ''cdef'',
             case_row.topic_name = ''T9'', case_row.namespace = ''ns'', case_row.case_number = 1,
             row.article_sha256 = Some ''sha'', row.article_filename = Some ''file'',
             row.task_uuid = ''task''\<rparr>,
            \<lparr>offset.start_pos = 0, offset.end_pos = 4, text_offset.target_text = ''abcd'',
             case_row.topic_name = ''T1'', case_row.namespace = ''ns'', case_row.case_number = 1,
             row.article_sha256 = Some ''sha'', row.article_filename = Some ''file'',
             row.task_uuid = ''task''\<rparr>]
      \<and> get_consensus py2_slot_order ascii_enc p'
          = Inr [\<lparr>offset.start_pos = 0, offset.end_pos = 4, text_offset.target_text = ''abcd'',
             case_row.topic_name = ''T1'', case_row.namespace = ''ns'', case_row.case_number = 1,
             row.article_sha256 = Some ''sha'', row.article_filename = Some ''file'',
             row.task_uuid = ''task''\<rparr>,
            \<lparr>offset.start_pos = 2, offset.end_pos = 6, text_offset.target_text = ''cdef'',
             case_row.topic_name = ''T9'', case_row.namespace = ''ns'', case_row.case_number = 1,
             row.article_sha256 = Some ''sha'', row.article_filename = Some ''file'',
             row.task_uuid = ''task''\<rparr>]
      \<and> get_consensus py2_slot_order ascii_enc p' \<noteq> get_consensus py2_slot_order ascii_enc p"
proof -
  let ?s = "ConsensusProcessor_init ''task'' fmempty"
  have mr: "\<not> taskrun_count a < dict_get fmempty ''minimum_redundancy'' MIN_REDUNDANCY"
    if "a \<in> set collision_batch" for a
    using that by (auto simp: collision_batch_def example_anno_def dict_get_def MIN_REDUNDANCY_def)
  have cons: "list_all (\<lambda>a. list_all (agree ascii_dec a) collision_batch) collision_batch"
    unfolding list_all_iff using collision_batch_consistent mr by blast
  have perm: "mset (rev collision_batch) = mset collision_batch" by simp
  obtain p where p: "ConsensusProcessor_consider ascii_dec ?s collision_batch = Returns p"
    using collision_rows(1)
    by (cases "ConsensusProcessor_consider ascii_dec ?s collision_batch") simp_all
  obtain p' where p': "ConsensusProcessor_consider ascii_dec ?s (rev collision_batch) = Returns p'"
    using collision_rows(2)
    by (cases "ConsensusProcessor_consider ascii_dec ?s (rev collision_batch)") simp_all
  note r = collision_rows(1) [unfolded p outcome.case]
  note r' = collision_rows(2) [unfolded p' outcome.case]
  have ne: "get_consensus py2_slot_order ascii_enc p' \<noteq> get_consensus py2_slot_order ascii_enc p"
    unfolding r r' by simp
  from cons perm p p' r r' ne show ?thesis by blast
qed

text \<open>
  Under the empty topic name \<^verbatim>\<open>TopicData.consider\<close> takes the topic for new at every
  call (\<^verbatim>\<open>if not self.topic_name\<close>), so it overwrites the namespace instead of comparing
  it: a batch with two namespaces under that name is accepted in either order, and the topic
  keeps the namespace of the annotation considered last. Such a batch is not consistent.
\<close>

lemma empty_topic_name_order_dependent:
  "(case ConsensusProcessor_consider ascii_dec (ConsensusProcessor_init ''task'' fmempty)
           unnamed_batch of
      Returns p \<Rightarrow> map_option TopicData.namespace (fmlookup (topics p) []) | Raises e p \<Rightarrow> None)
     = Some ''n2''
   \<and> (case ConsensusProcessor_consider ascii_dec (ConsensusProcessor_init ''task'' fmempty)
           (rev unnamed_batch) of
      Returns p \<Rightarrow> map_option TopicData.namespace (fmlookup (topics p) []) | Raises e p \<Rightarrow> None)
     = Some ''n1''"
  by code_simp

end
